theory Spec2Isabelle
  imports Main "HOL-Library.Sublist"
begin

section \<open>The auto-indenter \<^verbatim>\<open>scripts/auto_indent.py\<close>\<close>

text \<open>
  A Python \<^verbatim>\<open>str\<close> is modelled as a \<^typ>\<open>string\<close>, that is a list of \<^typ>\<open>char\<close>.
  A \<^typ>\<open>char\<close> stands for the code point of the same number, so the model covers the
  texts whose code points are below 256. On these code points \<^verbatim>\<open>str.isspace\<close>, the class
  \<^verbatim>\<open>\s\<close> of \<^verbatim>\<open>re\<close>, \<^verbatim>\<open>str.strip\<close> and \<^verbatim>\<open>str.split\<close> agree
  on one set of white space, and \<^verbatim>\<open>str.lower\<close> maps a character to one character.
  The indent depth is an \<^typ>\<open>int\<close>, as in Python, and every \<^verbatim>\<open>max(depth - 1, 0)\<close> of
  the source is written out.
\<close>

subsection \<open>The string operations of Python that the script uses\<close>

datatype py_error = IndexError | OSError

definition isspace :: "char \<Rightarrow> bool" where
  "isspace c = ((of_char c :: nat) \<in> {9, 10, 11, 12, 13, 28, 29, 30, 31, 32, 133, 160})"

definition lstrip :: "string \<Rightarrow> string" where
  "lstrip s = dropWhile isspace s"

definition rstrip :: "string \<Rightarrow> string" where
  "rstrip s = rev (dropWhile isspace (rev s))"

definition strip :: "string \<Rightarrow> string" where
  "strip s = rstrip (lstrip s)"

text \<open>\<^verbatim>\<open>s.strip(chars)\<close>: the characters of \<open>chars\<close> are removed at both ends.\<close>

definition strip_chars :: "string \<Rightarrow> string \<Rightarrow> string" where
  "strip_chars chars s =
     rev (dropWhile (\<lambda>c. c \<in> set chars) (rev (dropWhile (\<lambda>c. c \<in> set chars) s)))"

fun startswith :: "string \<Rightarrow> string \<Rightarrow> bool" where
  "startswith s [] = True"
| "startswith [] (p # ps) = False"
| "startswith (c # cs) (p # ps) = (c = p \<and> startswith cs ps)"

definition endswith :: "string \<Rightarrow> string \<Rightarrow> bool" where
  "endswith s p = startswith (rev s) (rev p)"

text \<open>\<^verbatim>\<open>s.split(sep)\<close> for a separator of one character: it returns at least one piece.\<close>

fun split_on :: "char \<Rightarrow> string \<Rightarrow> string list" where
  "split_on sep [] = [[]]"
| "split_on sep (c # cs) =
     (if c = sep then [] # split_on sep cs
      else (case split_on sep cs of [] \<Rightarrow> [[c]] | p # ps \<Rightarrow> (c # p) # ps))"

text \<open>\<^verbatim>\<open>s.split()\<close>: the maximal runs of characters that are not white space.\<close>

fun split_ws :: "string \<Rightarrow> string list" where
  "split_ws [] = []"
| "split_ws (c # cs) =
     (if isspace c then split_ws cs
      else if cs \<noteq> [] \<and> \<not> isspace (hd cs)
        then (case split_ws cs of [] \<Rightarrow> [[c]] | w # ws \<Rightarrow> (c # w) # ws)
        else [c] # split_ws cs)"

text \<open>\<^verbatim>\<open>xs[0]\<close> raises \<^verbatim>\<open>IndexError\<close> on an empty list.\<close>

fun first :: "'a list \<Rightarrow> py_error + 'a" where
  "first [] = Inl IndexError"
| "first (x # xs) = Inr x"

text \<open>\<^verbatim>\<open>sep.join(xs)\<close>.\<close>

fun join :: "string \<Rightarrow> string list \<Rightarrow> string" where
  "join sep [] = []"
| "join sep [x] = x"
| "join sep (x # y # ys) = x @ sep @ join sep (y # ys)"

text \<open>
  \<^verbatim>\<open>str.lower\<close> on the code points below 256: the letters A to Z and the letters
  from 192 to 222 other than the multiplication sign 215 move up by 32.
\<close>

definition lower_char :: "char \<Rightarrow> char" where
  "lower_char c =
     (let n = (of_char c :: nat)
      in if (65 \<le> n \<and> n \<le> 90) \<or> (192 \<le> n \<and> n \<le> 222 \<and> n \<noteq> 215)
         then char_of (n + 32) else c)"

definition lower :: "string \<Rightarrow> string" where
  "lower s = map lower_char s"

text \<open>
  A prefix test that ignores case, for a pattern \<open>p\<close> of lower-case ASCII letters and
  signs. It models both the literal \<^verbatim>\<open><!DOCTYPE\<close> of the token pattern under
  \<^verbatim>\<open>re.I\<close> and \<^verbatim>\<open>tok_strip.upper().startswith('<!DOCTYPE')\<close>: no character other
  than a letter of \<^verbatim>\<open>doctype\<close> in either case has an upper-case form that begins with
  a letter of \<^verbatim>\<open>DOCTYPE\<close>.
\<close>

definition ci_startswith :: "string \<Rightarrow> string \<Rightarrow> bool" where
  "ci_startswith s p = (map lower_char (take (length p) s) = p)"

text \<open>\<^verbatim>\<open>text.replace('\r\n', '\n')\<close>, \<^verbatim>\<open>.replace('\r', '\n')\<close> and
  \<^verbatim>\<open>.replace('\t', '  ')\<close>.\<close>

fun replace_crlf :: "string \<Rightarrow> string" where
  "replace_crlf [] = []"
| "replace_crlf [c] = [c]"
| "replace_crlf (c # d # cs) =
     (if c = CHR 0x0D \<and> d = CHR 0x0A then CHR 0x0A # replace_crlf cs
      else c # replace_crlf (d # cs))"

definition replace_cr :: "string \<Rightarrow> string" where
  "replace_cr s = map (\<lambda>c. if c = CHR 0x0D then CHR 0x0A else c) s"

definition replace_tab :: "string \<Rightarrow> string" where
  "replace_tab s = concat (map (\<lambda>c. if c = CHR 0x09 then ''  '' else [c]) s)"

definition normalize :: "string \<Rightarrow> string" where
  "normalize text = replace_tab (replace_cr (replace_crlf text))"

subsection \<open>Emitted lines\<close>

text \<open>
  \<^verbatim>\<open>out_lines.append('  ' * indent + s)\<close> appends \<open>Line indent s\<close>, and
  \<^verbatim>\<open>out_lines.append('')\<close> appends \<open>Blank\<close>; \<open>render\<close> gives the string that
  Python stores. \<^verbatim>\<open>'  ' * n\<close> is empty for a negative \<open>n\<close>.
\<close>

datatype oline = Line int string | Blank

definition indent_str :: "int \<Rightarrow> string" where
  "indent_str n = concat (replicate (nat n) ''  '')"

fun render :: "oline \<Rightarrow> string" where
  "render (Line d s) = indent_str d @ s"
| "render Blank = []"

fun depth_ok :: "oline \<Rightarrow> bool" where
  "depth_ok (Line d s) = (0 \<le> d)"
| "depth_ok Blank = True"

text \<open>The text of an emitted line after its indent.\<close>

fun line_text :: "oline \<Rightarrow> string" where
  "line_text (Line d s) = s"
| "line_text Blank = []"

text \<open>\<^verbatim>\<open>'\n'.join(out_lines).rstrip() + '\n'\<close>.\<close>

definition assemble :: "oline list \<Rightarrow> string" where
  "assemble out_lines = rstrip (join [CHR 0x0A] (map render out_lines)) @ [CHR 0x0A]"

subsection \<open>The tokenizer of \<^verbatim>\<open>format_html\<close>\<close>

text \<open>
  The pattern is
  \<^verbatim>\<open>(<!--.*?-->|<!DOCTYPE.*?>|<[^>]+>|[^<]+)\<close> with the flags \<^verbatim>\<open>re.S | re.I\<close>.
  Each \<open>match_\<close> function gives the length of the match of one alternative at the start
  of the text. \<open>until_sub pat s\<close> is the length of the shortest prefix of \<open>s\<close> that ends
  with \<open>pat\<close>, which is what a lazy \<^verbatim>\<open>.*?\<close> followed by \<open>pat\<close> consumes.
\<close>

fun until_sub :: "string \<Rightarrow> string \<Rightarrow> nat option" where
  "until_sub pat [] = (if pat = [] then Some 0 else None)"
| "until_sub pat (c # cs) =
     (if startswith (c # cs) pat then Some (length pat)
      else map_option Suc (until_sub pat cs))"

definition match_comment :: "string \<Rightarrow> nat option" where
  "match_comment s =
     (if startswith s ''<!--'' then map_option (\<lambda>n. 4 + n) (until_sub ''-->'' (drop 4 s))
      else None)"

definition match_doctype :: "string \<Rightarrow> nat option" where
  "match_doctype s =
     (if ci_startswith s ''<!doctype'' then map_option (\<lambda>n. 9 + n) (until_sub ''>'' (drop 9 s))
      else None)"

definition match_tag :: "string \<Rightarrow> nat option" where
  "match_tag s =
     (case s of
        [] \<Rightarrow> None
      | c # cs \<Rightarrow>
         if c = CHR ''<'' \<and> cs \<noteq> [] \<and> hd cs \<noteq> CHR ''>'' \<and> CHR ''>'' \<in> set cs
         then Some (length (takeWhile (\<lambda>x. x \<noteq> CHR ''>'') cs) + 2)
         else None)"

definition match_text :: "string \<Rightarrow> nat option" where
  "match_text s =
     (case takeWhile (\<lambda>x. x \<noteq> CHR ''<'') s of [] \<Rightarrow> None | r # rs \<Rightarrow> Some (length (r # rs)))"

definition match_at :: "string \<Rightarrow> nat option" where
  "match_at s =
     (case match_comment s of Some n \<Rightarrow> Some n | None \<Rightarrow>
      (case match_doctype s of Some n \<Rightarrow> Some n | None \<Rightarrow>
       (case match_tag s of Some n \<Rightarrow> Some n | None \<Rightarrow> match_text s)))"

text \<open>
  \<^verbatim>\<open>token_re.findall(text)\<close>: where no alternative matches, the scan moves one
  character on and that character belongs to no token.
\<close>

function tokenize :: "string \<Rightarrow> string list" where
  "tokenize s =
     (if s = [] then []
      else (case match_at s of
              None \<Rightarrow> tokenize (tl s)
            | Some n \<Rightarrow> take n s # tokenize (drop n s)))"
  by pat_completeness auto
termination
proof (relation "measure length")
  show "wf (measure length)" by simp
next
  fix s :: string
  assume "s \<noteq> []"
  then show "(tl s, s) \<in> measure length" by (cases s) simp_all
next
  fix s :: string and n :: nat
  assume ne: "s \<noteq> []" and m: "match_at s = Some n"
  have "0 < n"
    using m
    by (auto simp: match_at_def match_comment_def match_doctype_def match_tag_def
        match_text_def split: option.splits list.splits if_splits)
  with ne show "(drop n s, s) \<in> measure length" by simp
qed

subsection \<open>The depth machine of \<^verbatim>\<open>format_html\<close>\<close>

definition VOID_ELEMENTS :: "string set" where
  "VOID_ELEMENTS = set [''area'', ''base'', ''br'', ''col'', ''embed'', ''hr'', ''img'', ''input'',
     ''link'', ''meta'', ''param'', ''source'', ''track'', ''wbr'']"

text \<open>\<^verbatim>\<open>tag.endswith('/') or tag.split()[0].lower() in VOID_ELEMENTS\<close>.\<close>

definition is_self_closing :: "string \<Rightarrow> py_error + bool" where
  "is_self_closing tag =
     (if endswith tag ''/'' then Inr True
      else (case first (split_ws tag) of
              Inl e \<Rightarrow> Inl e
            | Inr w \<Rightarrow> Inr (lower w \<in> VOID_ELEMENTS)))"

text \<open>
  The condition of line 96:
  \<^verbatim>\<open>tok_strip.endswith('/>') or is_self_closing(tok_strip.strip('<>/ ').split()[0]
  if ' ' in tok_strip else tok_strip.strip('<>/'))\<close>.
\<close>

definition self_closing_or_void :: "string \<Rightarrow> py_error + bool" where
  "self_closing_or_void tok_strip =
     (if endswith tok_strip ''/>'' then Inr True
      else if CHR '' '' \<in> set tok_strip
        then (case first (split_ws (strip_chars ''<>/ '' tok_strip)) of
                Inl e \<Rightarrow> Inl e
              | Inr w \<Rightarrow> is_self_closing w)
        else is_self_closing (strip_chars ''<>/'' tok_strip))"

text \<open>
  \<^verbatim>\<open>re.match(r'<\s*([a-zA-Z0-9:-]+)', tok_strip)\<close>, then \<^verbatim>\<open>group(1).lower()\<close>, and
  the empty string when there is no match.
\<close>

definition is_name_char :: "char \<Rightarrow> bool" where
  "is_name_char c =
     (let n = (of_char c :: nat)
      in (97 \<le> n \<and> n \<le> 122) \<or> (65 \<le> n \<and> n \<le> 90) \<or> (48 \<le> n \<and> n \<le> 57)
         \<or> c = CHR '':'' \<or> c = CHR ''-'')"

definition tag_name_of :: "string \<Rightarrow> string" where
  "tag_name_of tok_strip =
     (case tok_strip of
        [] \<Rightarrow> []
      | c # cs \<Rightarrow>
         if c = CHR ''<'' then lower (takeWhile is_name_char (dropWhile isspace cs)) else [])"

text \<open>\<^verbatim>\<open>re.match(r'\s*</\s*' + tag_name + r'\s*>', t, re.I)\<close>.\<close>

definition is_closer :: "string \<Rightarrow> string \<Rightarrow> bool" where
  "is_closer tag_name t =
     (let a = dropWhile isspace t
      in startswith a ''</'' \<and>
         (let b = dropWhile isspace (drop 2 a)
          in ci_startswith b tag_name \<and>
             startswith (dropWhile isspace (drop (length tag_name) b)) ''>''))"

text \<open>The lines of a text node: the blank ones are dropped, the others are stripped.\<close>

definition text_lines :: "int \<Rightarrow> string \<Rightarrow> oline list" where
  "text_lines indent tok =
     map (\<lambda>line. Line indent (strip line))
       (filter (\<lambda>line. strip line \<noteq> []) (split_on (CHR 0x0A) tok))"

text \<open>The lines of the inside of a script or style block: a blank one stays, as an empty
  line, the others lose only the white space at their end.\<close>

definition inner_lines :: "int \<Rightarrow> string \<Rightarrow> oline list" where
  "inner_lines indent inner_text =
     map (\<lambda>line. if strip line = [] then Blank else Line indent (rstrip line))
       (split_on (CHR 0x0A) inner_text)"

definition emit :: "oline list \<Rightarrow> py_error + oline list \<Rightarrow> py_error + oline list" where
  "emit ls r = (case r of Inl e \<Rightarrow> Inl e | Inr out_lines \<Rightarrow> Inr (ls @ out_lines))"

text \<open>
  The \<^verbatim>\<open>while i < len(tokens)\<close> loop, on the tokens from index \<open>i\<close> on. The lines
  that the rest of the loop appends follow the lines of the current token; an exception
  ends the call and no line is returned.
\<close>

function html_loop :: "string list \<Rightarrow> int \<Rightarrow> py_error + oline list" where
  "html_loop [] indent = Inr []"
| "html_loop (tok # rest) indent =
     (let tok_strip = strip tok in
      if tok_strip = [] then html_loop rest indent
      else if startswith tok_strip ''<!--'' \<or> ci_startswith tok_strip ''<!doctype''
        then emit [Line indent tok_strip] (html_loop rest indent)
      else if startswith tok_strip ''<'' then
        (if startswith tok_strip ''</''
           then emit [Line (max (indent - 1) 0) tok_strip] (html_loop rest (max (indent - 1) 0))
         else if tag_name_of tok_strip \<in> {''script'', ''style''} then
           (let tag_name = tag_name_of tok_strip;
                inner = takeWhile (\<lambda>t. \<not> is_closer tag_name t) rest;
                block = Line indent tok_strip # inner_lines (indent + 1) (concat inner)
            in (case dropWhile (\<lambda>t. \<not> is_closer tag_name t) rest of
                  [] \<Rightarrow> Inr block
                | t # rest' \<Rightarrow>
                    emit (block @ [Line (max (indent + 1 - 1) 0) (strip t)])
                      (html_loop rest' (max (indent + 1 - 1) 0))))
         else (case self_closing_or_void tok_strip of
                 Inl e \<Rightarrow> Inl e
               | Inr True \<Rightarrow> emit [Line indent tok_strip] (html_loop rest indent)
               | Inr False \<Rightarrow> emit [Line indent tok_strip] (html_loop rest (indent + 1))))
      else emit (text_lines indent tok) (html_loop rest indent))"
  by pat_completeness auto
termination
proof (relation "measure (\<lambda>(tokens, indent). length tokens)")
  fix rest :: "string list" and tag_name t rest'
  assume "dropWhile (\<lambda>t. \<not> is_closer tag_name t) rest = t # rest'"
  moreover have "length (dropWhile (\<lambda>t. \<not> is_closer tag_name t) rest) \<le> length rest"
    by (rule length_dropWhile_le)
  ultimately have "length rest' < Suc (length rest)" by simp
  then show "\<And>tok indent. ((rest', max (indent + 1 - 1) 0), tok # rest, indent)
      \<in> measure (\<lambda>(tokens, indent). length tokens)" by simp
qed simp_all

text \<open>
  The trimmed tokens that reach the tests for an opening tag: they start with \<^verbatim>\<open><\<close> and
  are neither a comment, a doctype nor a closing tag.
\<close>

definition opening_tag :: "string \<Rightarrow> bool" where
  "opening_tag t =
     (startswith t ''<'' \<and> \<not> startswith t ''</'' \<and> \<not> startswith t ''<!--''
      \<and> \<not> ci_startswith t ''<!doctype'')"

text \<open>
  A tag in which the element name, a run of the characters that the pattern for the tag
  name accepts, comes right after \<^verbatim>\<open><\<close> and is followed by white space or by the
  \<^verbatim>\<open>>\<close> that ends the tag.
\<close>

definition plain_tag :: "string \<Rightarrow> bool" where
  "plain_tag t =
     (case t of
        [] \<Rightarrow> False
      | c # cs \<Rightarrow>
         c = CHR ''<'' \<and> takeWhile is_name_char cs \<noteq> [] \<and>
         (dropWhile is_name_char cs = ''>'' \<or>
          (dropWhile is_name_char cs \<noteq> [] \<and> isspace (hd (dropWhile is_name_char cs)))))"

text \<open>A token that is an opening script or style tag, which starts a block.\<close>

definition opaque_open :: "string \<Rightarrow> bool" where
  "opaque_open tok =
     (opening_tag (strip tok) \<and> tag_name_of (strip tok) \<in> {''script'', ''style''})"

text \<open>The emitted lines as one text, each line followed by a line break.\<close>

definition rendered :: "oline list \<Rightarrow> string" where
  "rendered ls = concat (map (\<lambda>l. render l @ [CHR 0x0A]) ls)"

definition html_out_lines :: "string \<Rightarrow> py_error + oline list" where
  "html_out_lines text = html_loop (tokenize (normalize text)) 0"

definition format_html :: "string \<Rightarrow> py_error + string" where
  "format_html text =
     (case html_out_lines text of
        Inl e \<Rightarrow> Inl e
      | Inr out_lines \<Rightarrow> Inr (assemble out_lines))"

subsection \<open>\<^verbatim>\<open>format_css\<close>\<close>

text \<open>\<^verbatim>\<open>line.index(c)\<close>, used only where \<open>c\<close> occurs in the line.\<close>

definition index_of :: "string \<Rightarrow> char \<Rightarrow> nat" where
  "index_of line c = length (takeWhile (\<lambda>x. x \<noteq> c) line)"

text \<open>
  The \<^verbatim>\<open>for raw in lines\<close> loop. \<open>depth1\<close> is the depth after the test for a leading
  closing brace, \<open>depth2\<close> the depth after the test for a trailing opening brace; the last
  test of the body guards \<^verbatim>\<open>pass\<close>, so both of its branches leave \<open>depth2\<close>.
\<close>

fun css_loop :: "string list \<Rightarrow> int \<Rightarrow> oline list" where
  "css_loop [] depth = []"
| "css_loop (raw # rest) depth =
     (let line = strip raw in
      if line = [] then css_loop rest depth
      else
        (let depth1 = (if startswith line ''}'' then max (depth - 1) 0 else depth);
             depth2 = (if endswith line ''{'' then depth1 + 1 else depth1);
             depth3 = (if CHR ''{'' \<in> set line \<and> CHR ''}'' \<in> set line \<and>
                          index_of line (CHR ''{'') < index_of line (CHR ''}'')
                       then depth2 else depth2)
         in Line depth1 line # css_loop rest depth3))"

definition css_out_lines :: "string \<Rightarrow> oline list" where
  "css_out_lines text = css_loop (split_on (CHR 0x0A) (normalize text)) 0"

text \<open>The trimmed lines that are not blank; the loop reads nothing else of its input.\<close>

definition css_lines :: "string list \<Rightarrow> string list" where
  "css_lines lines = filter (\<lambda>l. l \<noteq> []) (map strip lines)"

definition format_css :: "string \<Rightarrow> string" where
  "format_css text = assemble (css_out_lines text)"

subsection \<open>\<^verbatim>\<open>process_file\<close>\<close>

text \<open>
  A path is given by its name in the file system and by \<^verbatim>\<open>path.suffix\<close>, which
  \<^verbatim>\<open>pathlib\<close> computes. The file system maps a name to the content of the file.
  The result of \<^verbatim>\<open>process_file\<close> is the file system after the call and the line that is
  printed.
\<close>

record path =
  name :: string
  suffix :: string

datatype report = Formatted string | Unchanged string

type_synonym files = "string \<rightharpoonup> string"

text \<open>
  \<^verbatim>\<open>path.read_text(encoding='utf-8')\<close> opens the file in text mode, where every
  \<^verbatim>\<open>'\r\n'\<close> and every other \<^verbatim>\<open>'\r'\<close> of the content is read as \<^verbatim>\<open>'\n'\<close>; reading a
  file that is not there raises.
\<close>

definition read_text :: "files \<Rightarrow> string \<Rightarrow> py_error + string" where
  "read_text fs n =
     (case fs n of
        None \<Rightarrow> Inl OSError
      | Some content \<Rightarrow> Inr (replace_cr (replace_crlf content)))"

text \<open>
  \<^verbatim>\<open>path.write_text(new, encoding='utf-8')\<close> replaces the content of the file. In text
  mode a \<^verbatim>\<open>'\n'\<close> is written as the line separator of the platform, which is taken to
  be \<^verbatim>\<open>'\n'\<close> here, so the content is the text that is written.
\<close>

definition write_text :: "files \<Rightarrow> string \<Rightarrow> string \<Rightarrow> files" where
  "write_text fs n new = fs(n \<mapsto> new)"

definition process_file :: "path \<Rightarrow> files \<Rightarrow> py_error + files \<times> report" where
  "process_file p fs =
     (case read_text fs (name p) of
        Inl e \<Rightarrow> Inl e
      | Inr text \<Rightarrow>
         (case (if lower (suffix p) \<in> {''.html'', ''.htm''} then format_html text
                else if lower (suffix p) \<in> {''.css''} then Inr (format_css text)
                else Inr (replace_tab text)) of
            Inl e \<Rightarrow> Inl e
          | Inr new \<Rightarrow>
              if new \<noteq> text then Inr (write_text fs (name p) new, Formatted (name p))
              else Inr (fs, Unchanged (name p))))"

section \<open>Properties\<close>

subsection \<open>Auxiliary facts about the string operations\<close>

lemma startswith_Cons_iff: "startswith s (p # ps) = (\<exists>cs. s = p # cs \<and> startswith cs ps)"
  by (cases s) auto

lemma startswith_set: "startswith s pat \<Longrightarrow> set pat \<subseteq> set s"
  by (induction s pat rule: startswith.induct) auto

lemma until_sub_set: "until_sub pat s = Some n \<Longrightarrow> set pat \<subseteq> set s"
proof (induction s arbitrary: n)
  case Nil
  then show ?case by (simp split: if_splits)
next
  case (Cons c cs)
  show ?case
  proof (cases "startswith (c # cs) pat")
    case True
    then show ?thesis by (rule startswith_set)
  next
    case False
    with Cons show ?thesis by auto
  qed
qed

lemma until_sub_None: "c \<in> set pat \<Longrightarrow> c \<notin> set s \<Longrightarrow> until_sub pat s = None"
  using until_sub_set [of pat s] by (cases "until_sub pat s") auto

subsection \<open>The tokenizer\<close>

lemma match_at_lt_no_gt:
  assumes "CHR ''>'' \<notin> set s"
  shows "match_at (CHR ''<'' # s) = None"
proof -
  have n: "\<And>k. CHR ''>'' \<notin> set (drop k (CHR ''<'' # s))"
    using assms by (auto dest: in_set_dropD)
  have c: "match_comment (CHR ''<'' # s) = None"
    unfolding match_comment_def using until_sub_None [OF _ n, of "''-->''" 4] by simp
  have d: "match_doctype (CHR ''<'' # s) = None"
    unfolding match_doctype_def using until_sub_None [OF _ n, of "''>''" 9] by simp
  have t: "match_tag (CHR ''<'' # s) = None"
    using assms by (simp add: match_tag_def)
  have x: "match_text (CHR ''<'' # s) = None"
    by (simp add: match_text_def)
  show ?thesis by (simp add: match_at_def c d t x)
qed

text \<open>
  Claim C10. The tokenizer loses characters: a \<^verbatim>\<open><\<close> after which the text has no
  \<^verbatim>\<open>>\<close> is matched by no alternative of the token pattern, so the scan steps over it
  and it is part of no token. For the text \<^verbatim>\<open>a < b\<close> the tokens are \<^verbatim>\<open>"a "\<close> and
  \<^verbatim>\<open>" b"\<close>, and the output of \<^verbatim>\<open>format_html\<close> has the two lines \<^verbatim>\<open>a\<close> and
  \<^verbatim>\<open>b\<close> and no \<^verbatim>\<open><\<close>.
\<close>

theorem unmatched_lt_is_lost:
  "(\<forall>s. CHR ''>'' \<notin> set s \<longrightarrow> tokenize (CHR ''<'' # s) = tokenize s)
   \<and> tokenize ''a < b'' = [''a '', '' b'']
   \<and> format_html ''a < b'' = Inr ''a\<newline>b\<newline>''
   \<and> CHR ''<'' \<notin> set ''a\<newline>b\<newline>''"
proof (intro conjI allI impI)
  fix s :: string
  assume "CHR ''>'' \<notin> set s"
  then have "match_at (CHR ''<'' # s) = None" by (rule match_at_lt_no_gt)
  then show "tokenize (CHR ''<'' # s) = tokenize s"
    by (subst tokenize.simps) simp
next
  show "tokenize ''a < b'' = [''a '', '' b'']" by code_simp
next
  show "format_html ''a < b'' = Inr ''a\<newline>b\<newline>''" by code_simp
next
  show "CHR ''<'' \<notin> set ''a\<newline>b\<newline>''" by simp
qed

theorem unmatched_lt_is_lost_witness:
  "CHR ''>'' \<notin> set '' b'' \<and> tokenize ''< b'' = tokenize '' b'' \<and> tokenize '' b'' = ['' b'']"
proof -
  have h: "CHR ''>'' \<notin> set '' b''" by simp
  have "tokenize ''< b'' = tokenize '' b''"
    using unmatched_lt_is_lost h by blast
  moreover have "tokenize '' b'' = ['' b'']" by code_simp
  ultimately show ?thesis using h by blast
qed

subsection \<open>One step of the depth machine, by the kind of the token\<close>

lemma lower_char_simps [simp]:
  "lower_char CHR ''<'' = CHR ''<''" "lower_char CHR ''/'' = CHR ''/''"
  "lower_char CHR ''!'' = CHR ''!''"
  by (simp_all add: lower_char_def)

lemma html_loop_blank:
  "strip tok = [] \<Longrightarrow> html_loop (tok # rest) indent = html_loop rest indent"
  by simp

lemma html_loop_comment:
  assumes "strip tok \<noteq> []"
    and "startswith (strip tok) ''<!--'' \<or> ci_startswith (strip tok) ''<!doctype''"
  shows "html_loop (tok # rest) indent = emit [Line indent (strip tok)] (html_loop rest indent)"
  using assms by (auto simp: Let_def)

lemma html_loop_closing:
  assumes "startswith (strip tok) ''</''"
  shows "html_loop (tok # rest) indent =
         emit [Line (max (indent - 1) 0) (strip tok)] (html_loop rest (max (indent - 1) 0))"
proof -
  from assms obtain cs where s: "strip tok = CHR ''<'' # CHR ''/'' # cs"
    by (auto simp: startswith_Cons_iff)
  have "\<not> ci_startswith (strip tok) ''<!doctype''"
    by (simp add: s ci_startswith_def)
  moreover have "\<not> startswith (strip tok) ''<!--''" "startswith (strip tok) ''<''" "strip tok \<noteq> []"
    by (simp_all add: s)
  ultimately show ?thesis using assms
    by (simp add: Let_def)
qed


lemma of_char_lower_char:
  "(of_char (lower_char c) :: nat) =
     (if (65 \<le> (of_char c :: nat) \<and> (of_char c :: nat) \<le> 90)
         \<or> (192 \<le> (of_char c :: nat) \<and> (of_char c :: nat) \<le> 222 \<and> (of_char c :: nat) \<noteq> 215)
      then of_char c + 32 else of_char c)"
  by (auto simp: lower_char_def Let_def)

lemma lower_char_eq_lt: "lower_char c = CHR ''<'' \<Longrightarrow> c = CHR ''<''"
proof -
  assume "lower_char c = CHR ''<''"
  then have "(of_char (lower_char c) :: nat) = 60" by simp
  then have "(of_char c :: nat) = 60"
    by (simp add: of_char_lower_char split: if_splits)
  then have "(of_char c :: nat) = of_char CHR ''<''" by simp
  then show ?thesis by (simp only: of_char_eq_iff)
qed

lemma not_lt_not_special:
  assumes "\<not> startswith t ''<''"
  shows "\<not> startswith t ''<!--''" "\<not> ci_startswith t ''<!doctype''"
proof -
  show "\<not> startswith t ''<!--''" using assms by (cases t) auto
  show "\<not> ci_startswith t ''<!doctype''"
    using assms by (cases t) (auto simp: ci_startswith_def dest: lower_char_eq_lt)
qed

lemma html_loop_text:
  assumes "strip tok \<noteq> []" "\<not> startswith (strip tok) ''<''"
  shows "html_loop (tok # rest) indent = emit (text_lines indent tok) (html_loop rest indent)"
  using assms not_lt_not_special [OF assms(2)] by (simp add: Let_def)


lemma opening_tag_ne: "opening_tag t \<Longrightarrow> t \<noteq> []"
  by (auto simp: opening_tag_def)

lemma html_loop_open:
  assumes "opening_tag (strip tok)"
  shows "html_loop (tok # rest) indent =
     (if tag_name_of (strip tok) \<in> {''script'', ''style''} then
        (case dropWhile (\<lambda>t. \<not> is_closer (tag_name_of (strip tok)) t) rest of
           [] \<Rightarrow> Inr (Line indent (strip tok) # inner_lines (indent + 1)
                    (concat (takeWhile (\<lambda>t. \<not> is_closer (tag_name_of (strip tok)) t) rest)))
         | t # rest' \<Rightarrow>
             emit ((Line indent (strip tok) # inner_lines (indent + 1)
                     (concat (takeWhile (\<lambda>t. \<not> is_closer (tag_name_of (strip tok)) t) rest)))
                   @ [Line (max (indent + 1 - 1) 0) (strip t)])
               (html_loop rest' (max (indent + 1 - 1) 0)))
      else (case self_closing_or_void (strip tok) of
              Inl e \<Rightarrow> Inl e
            | Inr True \<Rightarrow> emit [Line indent (strip tok)] (html_loop rest indent)
            | Inr False \<Rightarrow> emit [Line indent (strip tok)] (html_loop rest (indent + 1))))"
proof -
  have c: "strip tok \<noteq> []" "startswith (strip tok) ''<''" "\<not> startswith (strip tok) ''</''"
    "\<not> startswith (strip tok) ''<!--''" "\<not> ci_startswith (strip tok) ''<!doctype''"
    using assms by (auto simp: opening_tag_def)
  show ?thesis
    by (simp only: html_loop.simps Let_def c if_True if_False simp_thms)
qed


lemma html_loop_tag:
  assumes "opening_tag (strip tok)" "tag_name_of (strip tok) \<notin> {''script'', ''style''}"
  shows "html_loop (tok # rest) indent =
         (case self_closing_or_void (strip tok) of
            Inl e \<Rightarrow> Inl e
          | Inr b \<Rightarrow> emit [Line indent (strip tok)] (html_loop rest (if b then indent else indent + 1)))"
proof -
  have "html_loop (tok # rest) indent =
     (case self_closing_or_void (strip tok) of
              Inl e \<Rightarrow> Inl e
            | Inr True \<Rightarrow> emit [Line indent (strip tok)] (html_loop rest indent)
            | Inr False \<Rightarrow> emit [Line indent (strip tok)] (html_loop rest (indent + 1)))"
    by (simp only: html_loop_open [OF assms(1)] assms(2) if_False)
  also have "\<dots> = (case self_closing_or_void (strip tok) of
            Inl e \<Rightarrow> Inl e
          | Inr b \<Rightarrow> emit [Line indent (strip tok)] (html_loop rest (if b then indent else indent + 1)))"
    by (cases "self_closing_or_void (strip tok)") (simp_all split: bool.splits)
  finally show ?thesis .
qed

lemma html_loop_opaque_open:
  assumes "opening_tag (strip tok)" "tag_name_of (strip tok) \<in> {''script'', ''style''}"
    and "\<forall>t \<in> set rest. \<not> is_closer (tag_name_of (strip tok)) t"
  shows "html_loop (tok # rest) indent =
         Inr (Line indent (strip tok) # inner_lines (indent + 1) (concat rest))"
proof -
  have d: "dropWhile (\<lambda>t. \<not> is_closer (tag_name_of (strip tok)) t) rest = []"
    and t: "takeWhile (\<lambda>t. \<not> is_closer (tag_name_of (strip tok)) t) rest = rest"
    using assms(3) by simp_all
  show ?thesis
    by (simp only: html_loop_open [OF assms(1)] assms(2) if_True d t list.case)
qed

lemma html_loop_opaque_closed:
  assumes "opening_tag (strip tok)" "tag_name_of (strip tok) \<in> {''script'', ''style''}"
    and "\<forall>t \<in> set inner. \<not> is_closer (tag_name_of (strip tok)) t"
    and "is_closer (tag_name_of (strip tok)) c"
  shows "html_loop (tok # inner @ c # rest) indent =
         emit (Line indent (strip tok) # inner_lines (indent + 1) (concat inner)
               @ [Line (max (indent + 1 - 1) 0) (strip c)])
           (html_loop rest (max (indent + 1 - 1) 0))"
proof -
  have d: "dropWhile (\<lambda>t. \<not> is_closer (tag_name_of (strip tok)) t) (inner @ c # rest) = c # rest"
    using assms(3,4) by (simp add: dropWhile_append3)
  have t: "takeWhile (\<lambda>t. \<not> is_closer (tag_name_of (strip tok)) t) (inner @ c # rest) = inner"
    using assms(3,4) by (simp add: takeWhile_append2)
  show ?thesis
    by (simp only: html_loop_open [OF assms(1)] assms(2) if_True d t list.case append_Cons)
qed

subsection \<open>Closing tags\<close>

text \<open>
  Claim C7. A token whose trimmed text starts with \<^verbatim>\<open></\<close> first lowers the depth by one,
  not below zero, and its trimmed text is then emitted at the new depth, at which the loop
  goes on. For the text \<^verbatim>\<open></div><p>x</p>\<close> the stray closing tag is emitted at depth 0,
  \<^verbatim>\<open><p>\<close> at depth 0, the text \<^verbatim>\<open>x\<close> at depth 1 and \<^verbatim>\<open></p>\<close> at depth 0.
\<close>

theorem closing_tag_decrements_then_emits:
  "(\<forall>tok rest indent. startswith (strip tok) ''</'' \<longrightarrow>
      html_loop (tok # rest) indent =
        emit [Line (max (indent - 1) 0) (strip tok)] (html_loop rest (max (indent - 1) 0))
      \<and> 0 \<le> max (indent - 1) 0)
   \<and> html_out_lines ''</div><p>x</p>''
       = Inr [Line 0 ''</div>'', Line 0 ''<p>'', Line 1 ''x'', Line 0 ''</p>'']
   \<and> format_html ''</div><p>x</p>'' = Inr ''</div>\<newline><p>\<newline>  x\<newline></p>\<newline>''"
proof (intro conjI allI impI)
  fix tok rest indent
  assume "startswith (strip tok) ''</''"
  then show "html_loop (tok # rest) indent =
        emit [Line (max (indent - 1) 0) (strip tok)] (html_loop rest (max (indent - 1) 0))"
    by (rule html_loop_closing)
next
  fix indent :: int
  show "0 \<le> max (indent - 1) 0" by simp
next
  show "html_out_lines ''</div><p>x</p>''
       = Inr [Line 0 ''</div>'', Line 0 ''<p>'', Line 1 ''x'', Line 0 ''</p>'']"
    by code_simp
next
  show "format_html ''</div><p>x</p>'' = Inr ''</div>\<newline><p>\<newline>  x\<newline></p>\<newline>''"
    by code_simp
qed

theorem closing_tag_decrements_then_emits_witness:
  "startswith (strip ''</div>'') ''</'' \<and>
   html_loop [''</div>'', ''x''] 0 = emit [Line 0 ''</div>''] (html_loop [''x''] 0) \<and>
   html_loop [''</div>'', ''x''] 0 = Inr [Line 0 ''</div>'', Line 0 ''x'']"
proof -
  have h: "startswith (strip ''</div>'') ''</''" by code_simp
  have "html_loop [''</div>'', ''x''] 0 =
        emit [Line (max (0 - 1) 0) (strip ''</div>'')] (html_loop [''x''] (max (0 - 1) 0))"
    using closing_tag_decrements_then_emits h by blast
  moreover have "strip ''</div>'' = ''</div>''" by code_simp
  moreover have "html_loop [''</div>'', ''x''] 0 = Inr [Line 0 ''</div>'', Line 0 ''x'']"
    by code_simp
  ultimately show ?thesis using h by simp
qed

subsection \<open>The stylesheet loop: lines with both braces\<close>

lemma index_lt_not_hd:
  assumes "index_of line a < index_of line b"
  shows "\<not> startswith line [b]"
  using assms by (cases line) (auto simp: index_of_def)

text \<open>
  Claim C5, as the spec states it, fails: a line that has an opening brace before a closing
  brace and ends with an opening brace raises the depth by one, since the test for such
  lines guards \<^verbatim>\<open>pass\<close> only. In \<^verbatim>\<open>.a { } .b {\<close> the opening brace comes first, and
  the next line is emitted at depth 1.
\<close>

theorem css_single_line_block_counterexample:
  "CHR ''{'' \<in> set ''.a { } .b {'' \<and> CHR ''}'' \<in> set ''.a { } .b {''
   \<and> index_of ''.a { } .b {'' (CHR ''{'') < index_of ''.a { } .b {'' (CHR ''}'')
   \<and> css_loop [''.a { } .b {'', ''x''] 0 = [Line 0 ''.a { } .b {'', Line 1 ''x'']
   \<and> format_css ''.a { } .b {\<newline>x'' = ''.a { } .b {\<newline>  x\<newline>''"
  by code_simp

text \<open>
  Claim C5, amended. A line with an opening brace before a closing brace is emitted at the
  depth before it (it cannot start with a closing brace, so nothing is subtracted); the
  depth after it is one more when the trimmed line ends with an opening brace and is
  unchanged otherwise.
\<close>

theorem css_single_line_block:
  assumes "CHR ''{'' \<in> set (strip raw)" and "CHR ''}'' \<in> set (strip raw)"
    and "index_of (strip raw) (CHR ''{'') < index_of (strip raw) (CHR ''}'')"
  shows "css_loop (raw # rest) depth =
         Line depth (strip raw)
         # css_loop rest (if endswith (strip raw) ''{'' then depth + 1 else depth)"
proof -
  have ne: "strip raw \<noteq> []" using assms(1) by auto
  have ns: "\<not> startswith (strip raw) ''}''" using assms(3) by (rule index_lt_not_hd)
  show ?thesis by (simp add: Let_def ne ns)
qed

theorem css_single_line_block_witness:
  "CHR ''{'' \<in> set (strip ''a { b: c; }'') \<and> CHR ''}'' \<in> set (strip ''a { b: c; }'')
   \<and> index_of (strip ''a { b: c; }'') (CHR ''{'') < index_of (strip ''a { b: c; }'') (CHR ''}'')
   \<and> css_loop [''a { b: c; }'', ''x''] 1 = Line 1 ''a { b: c; }'' # css_loop [''x''] 1
   \<and> css_loop [''a { b: c; }'', ''x''] 1 = [Line 1 ''a { b: c; }'', Line 1 ''x'']"
proof -
  have s: "strip ''a { b: c; }'' = ''a { b: c; }''" by code_simp
  have h1: "CHR ''{'' \<in> set (strip ''a { b: c; }'')"
    and h2: "CHR ''}'' \<in> set (strip ''a { b: c; }'')"
    and h3: "index_of (strip ''a { b: c; }'') (CHR ''{'') < index_of (strip ''a { b: c; }'') (CHR ''}'')"
    unfolding s by code_simp+
  have e: "\<not> endswith ''a { b: c; }'' ''{''" by code_simp
  have "css_loop [''a { b: c; }'', ''x''] 1 = Line 1 ''a { b: c; }'' # css_loop [''x''] 1"
    using css_single_line_block [OF h1 h2 h3, of "[''x'']" 1] e unfolding s by simp
  moreover have "css_loop [''x''] 1 = [Line 1 ''x'']" by code_simp
  ultimately show ?thesis using h1 h2 h3 by simp
qed

subsection \<open>Script and style blocks\<close>

text \<open>
  Claim C3, as the spec states it, fails: after an opening script or style tag with no
  closing tag the lines of the inside are still emitted, one level deeper. For the text
  \<^verbatim>\<open><script>x\<close> the line \<^verbatim>\<open>x\<close> follows the opening tag, at depth 1.
\<close>

theorem unterminated_block_counterexample:
  "html_out_lines ''<script>x'' = Inr [Line 0 ''<script>'', Line 1 ''x'']
   \<and> html_out_lines ''<script>x'' \<noteq> Inr [Line 0 ''<script>'']
   \<and> format_html ''<script>x'' = Inr ''<script>\<newline>  x\<newline>''"
  by code_simp

text \<open>
  Claim C3, amended. When no token after an opening script or style tag matches its closing
  tag, the call ends without an exception, and what it emits from the opening tag on is
  the opening tag at the current depth and then the lines of the concatenated remaining
  tokens, one level deeper (a blank one as an empty line): no closing tag follows and
  nothing else does.
\<close>

theorem unterminated_block:
  assumes "opening_tag (strip tok)" and "tag_name_of (strip tok) \<in> {''script'', ''style''}"
    and "\<forall>t \<in> set rest. \<not> is_closer (tag_name_of (strip tok)) t"
  shows "html_loop (tok # rest) indent =
         Inr (Line indent (strip tok) # inner_lines (indent + 1) (concat rest))"
  using assms by (rule html_loop_opaque_open)

theorem unterminated_block_witness:
  "opening_tag (strip ''<style>'') \<and> tag_name_of (strip ''<style>'') \<in> {''script'', ''style''}
   \<and> \<not> is_closer (tag_name_of (strip ''<style>'')) ''a ''
   \<and> \<not> is_closer (tag_name_of (strip ''<style>'')) ''<b>''
   \<and> \<not> is_closer (tag_name_of (strip ''<style>'')) ''</b>''
   \<and> html_loop [''<style>'', ''a '', ''<b>'', ''</b>''] 0
       = Inr (Line 0 ''<style>'' # inner_lines 1 ''a <b></b>'')
   \<and> inner_lines 1 ''a <b></b>'' = [Line 1 ''a <b></b>'']"
proof -
  have h1: "opening_tag (strip ''<style>'')" by code_simp
  have h2: "tag_name_of (strip ''<style>'') \<in> {''script'', ''style''}" by code_simp
  have c1: "\<not> is_closer (tag_name_of (strip ''<style>'')) ''a ''"
    and c2: "\<not> is_closer (tag_name_of (strip ''<style>'')) ''<b>''"
    and c3: "\<not> is_closer (tag_name_of (strip ''<style>'')) ''</b>''"
    by code_simp+
  have h3: "\<forall>t \<in> set [''a '', ''<b>'', ''</b>'']. \<not> is_closer (tag_name_of (strip ''<style>'')) t"
    using c1 c2 c3 by simp
  have s: "strip ''<style>'' = ''<style>''" by code_simp
  have "html_loop [''<style>'', ''a '', ''<b>'', ''</b>''] 0
       = Inr (Line 0 ''<style>'' # inner_lines 1 ''a <b></b>'')"
    using unterminated_block [OF h1 h2 h3, of 0] unfolding s by simp
  moreover have "inner_lines 1 ''a <b></b>'' = [Line 1 ''a <b></b>'']" by code_simp
  ultimately show ?thesis using h1 h2 c1 c2 c3 by blast
qed

subsection \<open>Stripping white space\<close>

lemma isspace_simps [simp]:
  "isspace (CHR 0x0A)" "isspace (CHR '' '')" "isspace (CHR 0x09)" "isspace (CHR 0x0D)"
  "\<not> isspace (CHR ''<'')" "\<not> isspace (CHR ''>'')"
  by (simp_all add: isspace_def)

lemma rstrip_idem [simp]: "rstrip (rstrip s) = rstrip s"
  by (simp add: rstrip_def)

lemma lstrip_idem [simp]: "lstrip (lstrip s) = lstrip s"
  by (simp add: lstrip_def)

lemma rstrip_Cons_nonspace: "\<not> isspace x \<Longrightarrow> rstrip (a @ x # b) = a @ x # rstrip b"
  by (simp add: rstrip_def dropWhile_append)

lemma lstrip_cases:
  obtains (blank) "\<forall>c \<in> set s. isspace c" "lstrip s = []"
  | (word) a x b where "s = a @ x # b" "\<forall>c \<in> set a. isspace c" "\<not> isspace x" "lstrip s = x # b"
proof (cases "\<forall>c \<in> set s. isspace c")
  case True
  then show ?thesis using blank by (simp add: lstrip_def)
next
  case False
  then have "dropWhile isspace s \<noteq> []" by simp
  then obtain x b where d: "dropWhile isspace s = x # b" by (cases "dropWhile isspace s") auto
  then have nx: "\<not> isspace x" using hd_dropWhile [of isspace s] by simp
  have e: "s = takeWhile isspace s @ x # b"
    using d takeWhile_dropWhile_id [of isspace s] by simp
  have t: "\<forall>c \<in> set (takeWhile isspace s). isspace c" by (auto dest: set_takeWhileD)
  have l: "lstrip s = x # b" using d by (simp add: lstrip_def)
  show ?thesis by (rule word [OF e t nx l])
qed

lemma rstrip_all_space: "\<forall>c \<in> set s. isspace c \<Longrightarrow> rstrip s = []"
  by (simp add: rstrip_def)

lemma lstrip_rstrip: "lstrip (rstrip s) = rstrip (lstrip s)"
proof (cases s rule: lstrip_cases)
  case blank
  then show ?thesis by (simp add: rstrip_all_space) (simp add: lstrip_def)
next
  case (word a x b)
  have "rstrip s = a @ x # rstrip b" by (simp add: word rstrip_Cons_nonspace)
  then have "lstrip (rstrip s) = x # rstrip b" using word by (simp add: lstrip_def)
  moreover have "rstrip (lstrip s) = x # rstrip b"
    using rstrip_Cons_nonspace [of x "[]" b] word by simp
  ultimately show ?thesis by simp
qed

lemma strip_rstrip [simp]: "strip (rstrip s) = strip s"
  by (simp add: strip_def lstrip_rstrip)

lemma strip_idem [simp]: "strip (strip s) = strip s"
  by (simp add: strip_def lstrip_rstrip)

lemma strip_eq_Nil_iff: "strip s = [] \<longleftrightarrow> (\<forall>c \<in> set s. isspace c)"
proof (cases s rule: lstrip_cases)
  case blank
  then show ?thesis by (simp add: strip_def rstrip_all_space)
next
  case (word a x b)
  then show ?thesis using rstrip_Cons_nonspace [of x "[]" b] by (auto simp: strip_def)
qed

lemma inner_lines_nonblank:
  "map (\<lambda>l. strip (line_text l)) (filter (\<lambda>l. l \<noteq> Blank) (inner_lines d s))
   = map strip (filter (\<lambda>p. strip p \<noteq> []) (split_on (CHR 0x0A) s))"
proof -
  have "map (\<lambda>l. strip (line_text l)) (filter (\<lambda>l. l \<noteq> Blank)
          (map (\<lambda>line. if strip line = [] then Blank else Line d (rstrip line)) ps))
        = map strip (filter (\<lambda>p. strip p \<noteq> []) ps)" for ps
    by (induction ps) simp_all
  then show ?thesis by (simp add: inner_lines_def)
qed

lemma inner_lines_blank:
  "length (filter (\<lambda>l. l = Blank) (inner_lines d s))
   = length (filter (\<lambda>p. strip p = []) (split_on (CHR 0x0A) s))"
proof -
  have "length (filter (\<lambda>l. l = Blank)
          (map (\<lambda>line. if strip line = [] then Blank else Line d (rstrip line)) ps))
        = length (filter (\<lambda>p. strip p = []) ps)" for ps
    by (induction ps) simp_all
  then show ?thesis by (simp add: inner_lines_def)
qed

text \<open>
  Claim C4, as the spec states it, fails. The text is normalized before it is split into
  tokens, so a tab inside a line of a script block becomes two spaces; and a \<^verbatim>\<open><\<close> that
  is at once followed by \<^verbatim>\<open>>\<close> belongs to no token, so it is missing from the inside of
  the block. In both cases a line of the block differs between input and output by more
  than its leading white space.
\<close>

theorem opaque_block_counterexample:
  "format_html (''<script>a'' @ [CHR 0x09] @ ''b</script>'')
     = Inr ''<script>\<newline>  a  b\<newline></script>\<newline>''
   \<and> lstrip ''  a  b'' \<noteq> lstrip (''a'' @ [CHR 0x09] @ ''b'')
   \<and> format_html ''<script>a<>b</script>'' = Inr ''<script>\<newline>  a>b\<newline></script>\<newline>''
   \<and> lstrip ''  a>b'' \<noteq> lstrip ''a<>b''"
  by code_simp

text \<open>
  Claim C4, amended. When the tokens \<open>inner\<close> follow an opening script or style tag and the
  next token is the first that matches its closing tag, the opening tag is emitted at the
  current depth, then one line for each piece of the concatenated text of \<open>inner\<close> between
  line breaks, in order, then the trimmed closing tag at the current depth, where the loop
  goes on. A blank piece gives an empty line; any other piece is emitted one level deeper
  with the white space at its end removed and nothing else changed. So the pieces that are
  not blank are the same up to white space at their ends, and the blank ones are as many.
  The pieces are those of the tokens, after the normalization of tabs and line ends.
\<close>

theorem opaque_block_lines:
  assumes "opening_tag (strip tok)" and "tag_name_of (strip tok) \<in> {''script'', ''style''}"
    and "\<forall>t \<in> set inner. \<not> is_closer (tag_name_of (strip tok)) t"
    and "is_closer (tag_name_of (strip tok)) c"
    and "0 \<le> indent"
  shows "html_loop (tok # inner @ c # rest) indent =
           emit (Line indent (strip tok) # inner_lines (indent + 1) (concat inner)
                 @ [Line indent (strip c)])
             (html_loop rest indent)
         \<and> inner_lines (indent + 1) (concat inner) =
             map (\<lambda>p. if strip p = [] then Blank else Line (indent + 1) (rstrip p))
               (split_on (CHR 0x0A) (concat inner))
         \<and> map (\<lambda>l. strip (line_text l))
               (filter (\<lambda>l. l \<noteq> Blank) (inner_lines (indent + 1) (concat inner)))
             = map strip (filter (\<lambda>p. strip p \<noteq> []) (split_on (CHR 0x0A) (concat inner)))
         \<and> length (filter (\<lambda>l. l = Blank) (inner_lines (indent + 1) (concat inner)))
             = length (filter (\<lambda>p. strip p = []) (split_on (CHR 0x0A) (concat inner)))"
proof (intro conjI)
  have "max (indent + 1 - 1) 0 = indent" using assms(5) by simp
  then show "html_loop (tok # inner @ c # rest) indent =
           emit (Line indent (strip tok) # inner_lines (indent + 1) (concat inner)
                 @ [Line indent (strip c)])
             (html_loop rest indent)"
    using html_loop_opaque_closed [OF assms(1-4), of rest indent] by simp
next
  show "inner_lines (indent + 1) (concat inner) =
             map (\<lambda>p. if strip p = [] then Blank else Line (indent + 1) (rstrip p))
               (split_on (CHR 0x0A) (concat inner))"
    by (simp add: inner_lines_def)
next
  show "map (\<lambda>l. strip (line_text l))
               (filter (\<lambda>l. l \<noteq> Blank) (inner_lines (indent + 1) (concat inner)))
             = map strip (filter (\<lambda>p. strip p \<noteq> []) (split_on (CHR 0x0A) (concat inner)))"
    by (rule inner_lines_nonblank)
next
  show "length (filter (\<lambda>l. l = Blank) (inner_lines (indent + 1) (concat inner)))
             = length (filter (\<lambda>p. strip p = []) (split_on (CHR 0x0A) (concat inner)))"
    by (rule inner_lines_blank)
qed

theorem opaque_block_lines_witness:
  "opening_tag (strip ''<style>'') \<and> tag_name_of (strip ''<style>'') \<in> {''script'', ''style''}
   \<and> \<not> is_closer (tag_name_of (strip ''<style>'')) ''\<newline> .a{}  \<newline>''
   \<and> is_closer (tag_name_of (strip ''<style>'')) ''</STYLE >'' \<and> (0::int) \<le> 2
   \<and> html_loop (''<style>'' # [''\<newline> .a{}  \<newline>''] @ ''</STYLE >'' # [''x'']) 2
       = Inr [Line 2 ''<style>'', Blank, Line 3 '' .a{}'', Blank, Line 2 ''</STYLE >'', Line 2 ''x'']"
proof -
  have h1: "opening_tag (strip ''<style>'')" by code_simp
  have h2: "tag_name_of (strip ''<style>'') \<in> {''script'', ''style''}" by code_simp
  have c1: "\<not> is_closer (tag_name_of (strip ''<style>'')) ''\<newline> .a{}  \<newline>''" by code_simp
  have h3: "\<forall>t \<in> set [''\<newline> .a{}  \<newline>'']. \<not> is_closer (tag_name_of (strip ''<style>'')) t"
    using c1 by simp
  have h4: "is_closer (tag_name_of (strip ''<style>'')) ''</STYLE >''" by code_simp
  have h5: "(0::int) \<le> 2" by simp
  have e: "emit (Line 2 (strip ''<style>'') # inner_lines (2 + 1) (concat [''\<newline> .a{}  \<newline>''])
                 @ [Line 2 (strip ''</STYLE >'')]) (html_loop [''x''] 2)
       = Inr [Line 2 ''<style>'', Blank, Line 3 '' .a{}'', Blank, Line 2 ''</STYLE >'', Line 2 ''x'']"
    by code_simp
  have "html_loop (''<style>'' # [''\<newline> .a{}  \<newline>''] @ ''</STYLE >'' # [''x'']) 2
       = Inr [Line 2 ''<style>'', Blank, Line 3 '' .a{}'', Blank, Line 2 ''</STYLE >'', Line 2 ''x'']"
    using opaque_block_lines [OF h1 h2 h3 h4 h5, of "[''x'']"] e by simp
  then show ?thesis using h1 h2 c1 h4 by simp
qed

subsection \<open>The test for self-closing and void tags\<close>

lemma split_ws_hd:
  "split_ws s = w # ws \<Longrightarrow> w \<noteq> [] \<and> (\<forall>c \<in> set w. \<not> isspace c)"
proof (induction s arbitrary: w ws)
  case Nil
  then show ?case by simp
next
  case (Cons c cs)
  show ?case
  proof (cases "isspace c")
    case True
    with Cons show ?thesis by simp
  next
    case False
    show ?thesis
    proof (cases "cs \<noteq> [] \<and> \<not> isspace (hd cs)")
      case True
      show ?thesis
      proof (cases "split_ws cs")
        case Nil
        with Cons.prems False True show ?thesis by auto
      next
        case (Cons w' ws')
        from Cons.IH [OF Cons] Cons Cons.prems False True show ?thesis by auto
      qed
    next
      case n: False
      with Cons.prems False show ?thesis by auto
    qed
  qed
qed

lemma split_ws_word:
  "w \<noteq> [] \<Longrightarrow> \<forall>c \<in> set w. \<not> isspace c \<Longrightarrow> split_ws w = [w]"
proof (induction w)
  case Nil
  then show ?case by simp
next
  case (Cons c cs)
  then show ?case by (cases cs) auto
qed

lemma first_split_ws_word: "first (split_ws s) = Inr w \<Longrightarrow> split_ws w = [w]"
proof -
  assume a: "first (split_ws s) = Inr w"
  then obtain ws where "split_ws s = w # ws" by (cases "split_ws s") auto
  from split_ws_hd [OF this] show ?thesis by (simp add: split_ws_word)
qed

lemma strip_chars_not_endswith:
  assumes "c \<in> set chars"
  shows "\<not> endswith (strip_chars chars s) [c]"
proof -
  define r where "r = dropWhile (\<lambda>c. c \<in> set chars) (rev (dropWhile (\<lambda>c. c \<in> set chars) s))"
  have e: "endswith (strip_chars chars s) [c] = startswith r [c]"
    by (simp add: endswith_def strip_chars_def r_def)
  show ?thesis
  proof (cases r)
    case Nil
    then show ?thesis by (simp add: e)
  next
    case (Cons x xs)
    then have "r \<noteq> []" by simp
    then have "hd r \<notin> set chars"
      unfolding r_def by (rule hd_dropWhile)
    then have "x \<noteq> c" using assms Cons by auto
    then show ?thesis by (simp add: e Cons)
  qed
qed

lemma is_self_closing_word:
  "split_ws w = [w] \<Longrightarrow> is_self_closing w = Inr (endswith w ''/'' \<or> lower w \<in> VOID_ELEMENTS)"
  by (simp add: is_self_closing_def)

lemma self_closing_or_void_eq:
  "self_closing_or_void t =
     (if endswith t ''/>'' then Inr True
      else (case first (split_ws (strip_chars (if CHR '' '' \<in> set t then ''<>/ '' else ''<>/'') t)) of
              Inl e \<Rightarrow> Inl e
            | Inr w \<Rightarrow> Inr ((CHR '' '' \<in> set t \<and> endswith w ''/'') \<or> lower w \<in> VOID_ELEMENTS)))"
proof (cases "endswith t ''/>''")
  case True
  then show ?thesis by (simp add: self_closing_or_void_def)
next
  case False
  show ?thesis
  proof (cases "CHR '' '' \<in> set t")
    case True
    show ?thesis
    proof (cases "first (split_ws (strip_chars ''<>/ '' t))")
      case (Inl e)
      with True False show ?thesis by (simp add: self_closing_or_void_def)
    next
      case (Inr w)
      from first_split_ws_word [OF Inr] have "split_ws w = [w]" .
      then show ?thesis using True False Inr
        by (simp add: self_closing_or_void_def is_self_closing_word)
    qed
  next
    case ns: False
    have "\<not> endswith (strip_chars ''<>/'' t) ''/''"
      by (rule strip_chars_not_endswith) simp
    then show ?thesis using ns False
      by (simp add: self_closing_or_void_def is_self_closing_def split: sum.splits)
  qed
qed

subsection \<open>The indent depth\<close>

lemma emit_Inr_iff: "emit ls r = Inr out \<longleftrightarrow> (\<exists>out'. r = Inr out' \<and> out = ls @ out')"
  by (cases r) (auto simp: emit_def)

lemma depth_ok_inner_lines: "0 \<le> d \<Longrightarrow> l \<in> set (inner_lines d s) \<Longrightarrow> depth_ok l"
  by (auto simp: inner_lines_def)

lemma depth_ok_text_lines: "0 \<le> d \<Longrightarrow> l \<in> set (text_lines d s) \<Longrightarrow> depth_ok l"
  by (auto simp: text_lines_def)

text \<open>One step of the loop, whatever the token: an exception, or some lines with depths
  that are not negative, followed by the lines of the loop on later tokens.\<close>

lemma html_loop_step:
  assumes "0 \<le> indent"
  shows "(\<exists>e. html_loop (tok # rest) indent = Inl e)
       \<or> (\<exists>ls rest' indent'. html_loop (tok # rest) indent = emit ls (html_loop rest' indent')
             \<and> (\<forall>l \<in> set ls. depth_ok l) \<and> 0 \<le> indent' \<and> length rest' \<le> length rest)
       \<or> (\<exists>ls. html_loop (tok # rest) indent = Inr ls \<and> (\<forall>l \<in> set ls. depth_ok l))"
proof -
  let ?t = "strip tok"
  consider (k_blank) "?t = []"
    | (k_special) "?t \<noteq> []" "startswith ?t ''<!--'' \<or> ci_startswith ?t ''<!doctype''"
    | (k_closing) "startswith ?t ''</''"
    | (k_text) "?t \<noteq> []" "\<not> startswith ?t ''<''"
    | (k_opaque) "opening_tag ?t" "tag_name_of ?t \<in> {''script'', ''style''}"
    | (k_tag) "opening_tag ?t" "tag_name_of ?t \<notin> {''script'', ''style''}"
    unfolding opening_tag_def by blast
  then show ?thesis
  proof cases
    case k_blank
    have "html_loop (tok # rest) indent = emit [] (html_loop rest indent)"
      using html_loop_blank [OF k_blank] by (simp add: emit_def split: sum.splits)
    then show ?thesis using assms by (intro disjI2 disjI1 exI [of _ "[]"] exI [of _ rest] exI [of _ indent]) simp
  next
    case k_special
    show ?thesis
      using html_loop_comment [OF k_special, of rest indent] assms
      by (intro disjI2 disjI1 exI [of _ "[Line indent ?t]"] exI [of _ rest] exI [of _ indent]) simp
  next
    case k_closing
    show ?thesis
      using html_loop_closing [OF k_closing, of rest indent]
      by (intro disjI2 disjI1 exI [of _ "[Line (max (indent - 1) 0) ?t]"] exI [of _ rest]
          exI [of _ "max (indent - 1) 0"]) simp
  next
    case k_text
    show ?thesis
      using html_loop_text [OF k_text, of rest indent] assms depth_ok_text_lines [OF assms]
      by (intro disjI2 disjI1 exI [of _ "text_lines indent tok"] exI [of _ rest] exI [of _ indent]) simp
  next
    case k_opaque
    let ?P = "\<lambda>t. \<not> is_closer (tag_name_of ?t) t"
    have i: "0 \<le> indent + 1" using assms by simp
    show ?thesis
    proof (cases "dropWhile ?P rest")
      case Nil
      then have "\<forall>t \<in> set rest. ?P t" by simp
      from html_loop_opaque_open [OF k_opaque this, of indent]
      show ?thesis using assms depth_ok_inner_lines [OF i] by auto
    next
      case (Cons c rest')
      then have r: "rest = takeWhile ?P rest @ c # rest'"
        using takeWhile_dropWhile_id [of ?P rest] by simp
      have c: "is_closer (tag_name_of ?t) c"
        using hd_dropWhile [of ?P rest] Cons by simp
      have n: "\<forall>t \<in> set (takeWhile ?P rest). ?P t" by (auto dest: set_takeWhileD)
      have m: "max (indent + 1 - 1) 0 = indent" using assms by simp
      have "html_loop (tok # takeWhile ?P rest @ c # rest') indent =
            emit (Line indent ?t # inner_lines (indent + 1) (concat (takeWhile ?P rest))
                  @ [Line indent (strip c)]) (html_loop rest' indent)"
        using html_loop_opaque_closed [OF k_opaque n c, of rest' indent] by (simp only: m)
      then have e: "html_loop (tok # rest) indent =
            emit (Line indent ?t # inner_lines (indent + 1) (concat (takeWhile ?P rest))
                  @ [Line indent (strip c)]) (html_loop rest' indent)"
        using r by metis
      have l: "length rest' \<le> length rest"
        using arg_cong [OF r, of length] by simp
      show ?thesis
        using e l assms depth_ok_inner_lines [OF i]
        by (intro disjI2 disjI1 exI [of _ "Line indent ?t # inner_lines (indent + 1)
              (concat (takeWhile ?P rest)) @ [Line indent (strip c)]"] exI [of _ rest']
            exI [of _ indent]) auto
    qed
  next
    case k_tag
    show ?thesis
    proof (cases "self_closing_or_void ?t")
      case (Inl e)
      then show ?thesis using html_loop_tag [OF k_tag, of rest indent] by simp
    next
      case (Inr b)
      then have "html_loop (tok # rest) indent =
          emit [Line indent ?t] (html_loop rest (if b then indent else indent + 1))"
        using html_loop_tag [OF k_tag, of rest indent] by simp
      then show ?thesis using assms
        by (intro disjI2 disjI1 exI [of _ "[Line indent ?t]"] exI [of _ rest]
            exI [of _ "if b then indent else indent + 1"]) simp
    qed
  qed
qed

lemma html_loop_depth_ok:
  "0 \<le> indent \<Longrightarrow> html_loop tokens indent = Inr out \<Longrightarrow> \<forall>l \<in> set out. depth_ok l"
proof (induction "length tokens" arbitrary: tokens indent out rule: less_induct)
  case less
  show ?case
  proof (cases tokens)
    case Nil
    with less.prems show ?thesis by simp
  next
    case (Cons tok rest)
    from html_loop_step [OF less.prems(1), of tok rest]
    consider e where "html_loop (tok # rest) indent = Inl e"
      | ls rest' indent' where "html_loop (tok # rest) indent = emit ls (html_loop rest' indent')"
          "\<forall>l \<in> set ls. depth_ok l" "0 \<le> indent'" "length rest' \<le> length rest"
      | ls where "html_loop (tok # rest) indent = Inr ls" "\<forall>l \<in> set ls. depth_ok l"
      by blast
    then show ?thesis
    proof cases
      case 1
      with less.prems Cons show ?thesis by simp
    next
      case 2
      from 2(1) less.prems(2) Cons obtain out' where
        o: "html_loop rest' indent' = Inr out'" "out = ls @ out'"
        by (auto simp: emit_Inr_iff)
      have "length rest' < length tokens" using 2(4) Cons by simp
      from less.hyps [OF this 2(3) o(1)] 2(2) o(2) show ?thesis by auto
    next
      case 3
      with less.prems Cons show ?thesis by simp
    qed
  qed
qed

lemma css_loop_Cons:
  "css_loop (raw # rest) depth =
     (if strip raw = [] then css_loop rest depth
      else Line (if startswith (strip raw) ''}'' then max (depth - 1) 0 else depth) (strip raw)
           # css_loop rest
               ((if startswith (strip raw) ''}'' then max (depth - 1) 0 else depth)
                + (if endswith (strip raw) ''{'' then 1 else 0)))"
  by (simp add: Let_def)

lemma css_loop_depth_ok:
  "0 \<le> depth \<Longrightarrow> \<forall>l \<in> set (css_loop lines depth). depth_ok l"
proof (induction lines arbitrary: depth)
  case Nil
  then show ?case by simp
next
  case (Cons raw rest)
  let ?d1 = "if startswith (strip raw) ''}'' then max (depth - 1) 0 else depth"
  let ?d2 = "?d1 + (if endswith (strip raw) ''{'' then 1 else 0)"
  have d1: "0 \<le> ?d1" using Cons.prems by simp
  then have d2: "0 \<le> ?d2" by simp
  show ?case
  proof (cases "strip raw = []")
    case True
    then have "css_loop (raw # rest) depth = css_loop rest depth"
      by (simp add: Let_def)
    then show ?thesis using Cons.IH [OF Cons.prems] by simp
  next
    case False
    have "css_loop (raw # rest) depth = Line ?d1 (strip raw) # css_loop rest ?d2"
      using False by (simp add: Let_def)
    then show ?thesis using Cons.IH [OF d2] d1 by simp
  qed
qed

text \<open>
  Claim C2. Every line that \<^verbatim>\<open>format_html\<close> or \<^verbatim>\<open>format_css\<close> emits is indented by a
  depth that is not negative, also when the text has more closing tags or closing braces
  than opening ones: the depth starts at zero, and it goes down only through
  \<^verbatim>\<open>max(depth - 1, 0)\<close>. The depth is an integer in the model, so this is a property of
  the loops and not of the type. (A call of \<^verbatim>\<open>format_html\<close> that raises emits no line.)
\<close>

theorem depth_never_negative:
  "(html_out_lines text = Inr out \<longrightarrow> (\<forall>l \<in> set out. depth_ok l))
   \<and> (\<forall>l \<in> set (css_out_lines text). depth_ok l)"
  using html_loop_depth_ok [of 0 "tokenize (normalize text)" out]
    css_loop_depth_ok [of 0 "split_on (CHR 0x0A) (normalize text)"]
  by (simp add: html_out_lines_def css_out_lines_def)

theorem depth_never_negative_witness:
  "html_out_lines ''</b></i>x'' = Inr [Line 0 ''</b>'', Line 0 ''</i>'', Line 0 ''x'']
   \<and> depth_ok (Line 0 ''</b>'') \<and> depth_ok (Line 0 ''</i>'') \<and> depth_ok (Line 0 ''x'')
   \<and> css_out_lines ''}\<newline>}\<newline>x'' = [Line 0 ''}'', Line 0 ''}'', Line 0 ''x'']
   \<and> depth_ok (hd (css_out_lines ''}\<newline>}\<newline>x''))"
proof -
  have h: "html_out_lines ''</b></i>x'' = Inr [Line 0 ''</b>'', Line 0 ''</i>'', Line 0 ''x'']"
    by code_simp
  have c: "css_out_lines ''}\<newline>}\<newline>x'' = [Line 0 ''}'', Line 0 ''}'', Line 0 ''x'']"
    by code_simp
  have "\<forall>l \<in> set [Line 0 ''</b>'', Line 0 ''</i>'', Line 0 ''x'']. depth_ok l"
    using depth_never_negative [of "''</b></i>x''" "[Line 0 ''</b>'', Line 0 ''</i>'', Line 0 ''x'']"] h
    by blast
  then have "depth_ok (Line 0 ''</b>'') \<and> depth_ok (Line 0 ''</i>'') \<and> depth_ok (Line 0 ''x'')"
    by simp
  moreover have "\<forall>l \<in> set (css_out_lines ''}\<newline>}\<newline>x''). depth_ok l"
    using depth_never_negative [of "''}\<newline>}\<newline>x''" "[]"] by blast
  then have "depth_ok (hd (css_out_lines ''}\<newline>}\<newline>x''))" by (simp add: c)
  ultimately show ?thesis using h c by blast
qed

subsection \<open>The end of the output\<close>

lemma rstrip_snoc_space: "isspace c \<Longrightarrow> rstrip (s @ [c]) = rstrip s"
  by (simp add: rstrip_def)

lemma assemble_shape:
  "assemble ls \<noteq> [] \<and> last (assemble ls) = CHR 0x0A
   \<and> rstrip (butlast (assemble ls)) = butlast (assemble ls)"
  by (simp add: assemble_def)

lemma rstrip_last: "rstrip s = s \<Longrightarrow> s \<noteq> [] \<Longrightarrow> \<not> isspace (last s)"
proof -
  assume a: "rstrip s = s" and n: "s \<noteq> []"
  have "dropWhile isspace (rev s) = rev s"
    using a by (metis rev_rev_ident rstrip_def)
  moreover have "rev s \<noteq> []" using n by simp
  ultimately have "\<not> isspace (hd (rev s))"
    using hd_dropWhile [of isspace "rev s"] by simp
  then show ?thesis using n by (simp add: hd_rev)
qed

text \<open>
  Claim C8. The output of \<^verbatim>\<open>format_html\<close>, when the call returns, and the output of
  \<^verbatim>\<open>format_css\<close> end with one line break, and what is before that line break has no
  white space at its end: it is empty or ends with a character that is not white space, so
  in particular not with a second line break or a blank line.
\<close>

theorem output_ends_with_one_line_break:
  "(format_html text = Inr out \<longrightarrow>
      out \<noteq> [] \<and> last out = CHR 0x0A \<and> rstrip (butlast out) = butlast out
      \<and> (butlast out \<noteq> [] \<longrightarrow> \<not> isspace (last (butlast out))))
   \<and> format_css text \<noteq> [] \<and> last (format_css text) = CHR 0x0A
   \<and> rstrip (butlast (format_css text)) = butlast (format_css text)
   \<and> (butlast (format_css text) \<noteq> [] \<longrightarrow> \<not> isspace (last (butlast (format_css text))))"
proof -
  have "out \<noteq> [] \<and> last out = CHR 0x0A \<and> rstrip (butlast out) = butlast out
      \<and> (butlast out \<noteq> [] \<longrightarrow> \<not> isspace (last (butlast out)))"
    if "format_html text = Inr out"
  proof -
    from that obtain ls where "out = assemble ls"
      by (auto simp: format_html_def split: sum.splits)
    then show ?thesis using assemble_shape [of ls] rstrip_last [of "butlast out"] by simp
  qed
  moreover have "format_css text \<noteq> [] \<and> last (format_css text) = CHR 0x0A
   \<and> rstrip (butlast (format_css text)) = butlast (format_css text)
   \<and> (butlast (format_css text) \<noteq> [] \<longrightarrow> \<not> isspace (last (butlast (format_css text))))"
    unfolding format_css_def
    using assemble_shape [of "css_out_lines text"]
      rstrip_last [of "butlast (assemble (css_out_lines text))"] by blast
  ultimately show ?thesis by blast
qed

theorem output_ends_with_one_line_break_witness:
  "format_html ''<p>a</p>  \<newline>\<newline> '' = Inr ''<p>\<newline>  a\<newline></p>\<newline>''
   \<and> last ''<p>\<newline>  a\<newline></p>\<newline>'' = CHR 0x0A
   \<and> butlast ''<p>\<newline>  a\<newline></p>\<newline>'' \<noteq> []
   \<and> \<not> isspace (last (butlast ''<p>\<newline>  a\<newline></p>\<newline>''))
   \<and> format_css ''a {\<newline>} \<newline>\<newline>'' = ''a {\<newline>}\<newline>''
   \<and> \<not> isspace (last (butlast (format_css ''a {\<newline>} \<newline>\<newline>'')))"
proof -
  have h: "format_html ''<p>a</p>  \<newline>\<newline> '' = Inr ''<p>\<newline>  a\<newline></p>\<newline>''"
    by code_simp
  have n: "butlast ''<p>\<newline>  a\<newline></p>\<newline>'' \<noteq> []" by simp
  have c: "format_css ''a {\<newline>} \<newline>\<newline>'' = ''a {\<newline>}\<newline>''" by code_simp
  have n2: "butlast (format_css ''a {\<newline>} \<newline>\<newline>'') \<noteq> []" by (simp add: c)
  from output_ends_with_one_line_break [of "''<p>a</p>  \<newline>\<newline> ''" "''<p>\<newline>  a\<newline></p>\<newline>''"] h n
  have "last ''<p>\<newline>  a\<newline></p>\<newline>'' = CHR 0x0A
     \<and> \<not> isspace (last (butlast ''<p>\<newline>  a\<newline></p>\<newline>''))" by blast
  moreover from output_ends_with_one_line_break [of "''a {\<newline>} \<newline>\<newline>''" "[]"] n2
  have "\<not> isspace (last (butlast (format_css ''a {\<newline>} \<newline>\<newline>'')))" by blast
  ultimately show ?thesis using h n c by blast
qed

subsection \<open>Splitting and joining lines\<close>

lemma split_on_ne [simp]: "split_on sep s \<noteq> []"
  by (induction s) (auto split: list.splits)

lemma split_on_Cons:
  "split_on sep (c # cs) =
     (if c = sep then [] # split_on sep cs
      else (c # hd (split_on sep cs)) # tl (split_on sep cs))"
  by (cases "split_on sep cs") simp_all

lemma split_on_no_sep: "p \<in> set (split_on sep s) \<Longrightarrow> sep \<notin> set p"
proof (induction s arbitrary: p)
  case Nil
  then show ?case by simp
next
  case (Cons c cs)
  obtain q qs where q: "split_on sep cs = q # qs" by (cases "split_on sep cs") simp_all
  show ?case
  proof (cases "c = sep")
    case True
    with Cons show ?thesis by auto
  next
    case False
    with Cons.prems q have "p = c # q \<or> p \<in> set qs" by simp
    then show ?thesis using Cons.IH [of q] Cons.IH [of p] False q by auto
  qed
qed

lemma split_on_subset: "p \<in> set (split_on sep s) \<Longrightarrow> set p \<subseteq> set s"
proof (induction s arbitrary: p)
  case Nil
  then show ?case by simp
next
  case (Cons c cs)
  obtain q qs where q: "split_on sep cs = q # qs" by (cases "split_on sep cs") simp_all
  show ?case
  proof (cases "c = sep")
    case True
    with Cons show ?thesis by auto
  next
    case False
    with Cons.prems q have "p = c # q \<or> p \<in> set qs" by simp
    then show ?thesis using Cons.IH [of q] Cons.IH [of p] q by auto
  qed
qed

lemma split_on_snoc: "split_on sep (s @ [sep]) = split_on sep s @ [[]]"
proof (induction s)
  case Nil
  then show ?case by simp
next
  case (Cons c cs)
  obtain q qs where q: "split_on sep cs = q # qs" by (cases "split_on sep cs") simp_all
  then show ?case using Cons by simp
qed

lemma split_on_piece: "sep \<notin> set r \<Longrightarrow> split_on sep (r @ sep # s) = r # split_on sep s"
  by (induction r) auto

lemma split_on_single: "sep \<notin> set r \<Longrightarrow> split_on sep r = [r]"
  by (induction r) auto

lemma split_on_join:
  "rs \<noteq> [] \<Longrightarrow> \<forall>r \<in> set rs. sep \<notin> set r \<Longrightarrow> split_on sep (join [sep] rs) = rs"
proof (induction "[sep]" rs rule: join.induct)
  case 1
  then show ?case by simp
next
  case (2 x)
  then show ?case by (simp add: split_on_single)
next
  case (3 x y ys)
  then show ?case by (simp add: split_on_piece)
qed

lemma set_rstrip: "set (rstrip s) \<subseteq> set s"
  by (auto simp: rstrip_def dest: set_dropWhileD)

lemma set_lstrip: "set (lstrip s) \<subseteq> set s"
  by (auto simp: lstrip_def dest: set_dropWhileD)

lemma set_strip: "set (strip s) \<subseteq> set s"
  using set_rstrip [of "lstrip s"] set_lstrip [of s] by (auto simp: strip_def)

lemma rstrip_fix: "s \<noteq> [] \<Longrightarrow> \<not> isspace (last s) \<Longrightarrow> rstrip s = s"
proof -
  assume "s \<noteq> []" and n: "\<not> isspace (last s)"
  then obtain b x where s: "s = b @ [x]" by (metis rev_exhaust)
  with n show ?thesis by (simp add: rstrip_def)
qed

lemma strip_fix_rstrip: "strip k = k \<Longrightarrow> rstrip k = k"
  by (metis rstrip_idem strip_def)

lemma strip_fix_last: "strip k = k \<Longrightarrow> k \<noteq> [] \<Longrightarrow> \<not> isspace (last k)"
  by (rule rstrip_last [OF strip_fix_rstrip])

lemma lstrip_spaces: "\<forall>c \<in> set ws. isspace c \<Longrightarrow> lstrip (ws @ k) = lstrip k"
  by (simp add: lstrip_def dropWhile_append)

lemma strip_spaces: "\<forall>c \<in> set ws. isspace c \<Longrightarrow> strip (ws @ k) = strip k"
  by (simp add: strip_def lstrip_spaces)

lemma set_indent_str: "set (indent_str d) \<subseteq> {CHR '' ''}"
  by (auto simp: indent_str_def)

lemma strip_render: "strip (render (Line d k)) = strip k"
proof -
  have "\<forall>c \<in> set (indent_str d). isspace c" using set_indent_str [of d] by auto
  then show ?thesis by (simp add: strip_spaces)
qed

lemma join_last:
  "rs \<noteq> [] \<Longrightarrow> last rs \<noteq> [] \<Longrightarrow> join sep rs \<noteq> [] \<and> last (join sep rs) = last (last rs)"
  by (induction sep rs rule: join.induct) auto

lemma set_join: "set (join sep rs) \<subseteq> set sep \<union> \<Union> (set ` set rs)"
  by (induction sep rs rule: join.induct) auto

text \<open>The normalization removes every carriage return and tab, and changes nothing in a
  text that has none.\<close>

lemma replace_crlf_set: "set (replace_crlf s) \<subseteq> set s"
  by (induction s rule: replace_crlf.induct) auto

lemma replace_crlf_id: "CHR 0x0D \<notin> set s \<Longrightarrow> replace_crlf s = s"
  by (induction s rule: replace_crlf.induct) auto

lemma normalize_no_cr_tab: "CHR 0x0D \<notin> set (normalize s) \<and> CHR 0x09 \<notin> set (normalize s)"
  by (auto simp: normalize_def replace_tab_def replace_cr_def split: if_splits)

lemma replace_tab_id: "CHR 0x09 \<notin> set s \<Longrightarrow> replace_tab s = s"
  unfolding replace_tab_def by (induction s) auto

lemma replace_cr_id: "CHR 0x0D \<notin> set s \<Longrightarrow> replace_cr s = s"
  unfolding replace_cr_def by (induction s) auto

lemma normalize_id: "CHR 0x0D \<notin> set s \<Longrightarrow> CHR 0x09 \<notin> set s \<Longrightarrow> normalize s = s"
  by (simp add: normalize_def replace_crlf_id replace_cr_id replace_tab_id)

subsection \<open>The stylesheet formatter applied twice\<close>

lemma css_lines_Cons:
  "css_lines (raw # rest) = (if strip raw = [] then css_lines rest else strip raw # css_lines rest)"
  by (simp add: css_lines_def)

lemma css_loop_css_lines: "css_loop lines depth = css_loop (css_lines lines) depth"
proof (induction lines arbitrary: depth)
  case Nil
  then show ?case by (simp add: css_lines_def)
next
  case (Cons raw rest)
  show ?case
  proof (cases "strip raw = []")
    case True
    then show ?thesis using Cons.IH by (simp add: css_lines_Cons)
  next
    case False
    have "css_loop (css_lines (raw # rest)) depth = css_loop (strip raw # css_lines rest) depth"
      using False by (simp add: css_lines_Cons)
    also have "\<dots> = Line (if startswith (strip raw) ''}'' then max (depth - 1) 0 else depth) (strip raw)
           # css_loop (css_lines rest)
               ((if startswith (strip raw) ''}'' then max (depth - 1) 0 else depth)
                + (if endswith (strip raw) ''{'' then 1 else 0))"
      using False by (simp only: css_loop_Cons strip_idem if_False)
    also have "\<dots> = css_loop (raw # rest) depth"
      using False Cons.IH by (simp only: css_loop_Cons if_False)
    finally show ?thesis by simp
  qed
qed

lemma css_lines_clean: "k \<in> set (css_lines lines) \<Longrightarrow> strip k = k \<and> k \<noteq> []"
  by (auto simp: css_lines_def)

lemma css_lines_subset: "k \<in> set (css_lines lines) \<Longrightarrow> \<exists>l \<in> set lines. set k \<subseteq> set l"
  using set_strip by (auto simp: css_lines_def)

lemma css_loop_clean_lines:
  "\<forall>k \<in> set ks. strip k = k \<and> k \<noteq> [] \<Longrightarrow> l \<in> set (css_loop ks depth)
   \<Longrightarrow> \<exists>d k. l = Line d k \<and> k \<in> set ks"
proof (induction ks arbitrary: depth)
  case Nil
  then show ?case by simp
next
  case (Cons k ks)
  have k: "strip k = k" "strip k \<noteq> []" using Cons.prems(1) by simp_all
  from Cons.prems(2) k
  consider "l = Line (if startswith (strip k) ''}'' then max (depth - 1) 0 else depth) (strip k)"
    | "l \<in> set (css_loop ks ((if startswith (strip k) ''}'' then max (depth - 1) 0 else depth)
                + (if endswith (strip k) ''{'' then 1 else 0)))"
    by (simp only: css_loop_Cons if_False set_simps) blast
  then show ?case
  proof cases
    case 1
    then show ?thesis using k by auto
  next
    case 2
    from Cons.IH [OF _ 2] Cons.prems(1) show ?thesis by auto
  qed
qed

lemma css_lines_render_loop:
  "\<forall>k \<in> set ks. strip k = k \<and> k \<noteq> [] \<Longrightarrow> css_lines (map render (css_loop ks depth)) = ks"
proof (induction ks arbitrary: depth)
  case Nil
  then show ?case by (simp add: css_lines_def)
next
  case (Cons k ks)
  have k: "strip k = k" "strip k \<noteq> []" using Cons.prems(1) by simp_all
  let ?d1 = "if startswith (strip k) ''}'' then max (depth - 1) 0 else depth"
  let ?d2 = "?d1 + (if endswith (strip k) ''{'' then 1 else 0)"
  have "css_loop (k # ks) depth = Line ?d1 (strip k) # css_loop ks ?d2"
    using k by (simp only: css_loop_Cons if_False)
  then have "css_lines (map render (css_loop (k # ks) depth))
      = css_lines (render (Line ?d1 (strip k)) # map render (css_loop ks ?d2))" by simp
  also have "\<dots> = strip k # css_lines (map render (css_loop ks ?d2))"
    using k by (simp only: css_lines_Cons strip_render strip_idem if_False)
  also have "\<dots> = k # ks" using Cons.IH [of ?d2] Cons.prems k by simp
  finally show ?case .
qed

lemma css_out_lines_again: "css_out_lines (format_css text) = css_out_lines text"
proof -
  define ks where "ks = css_lines (split_on (CHR 0x0A) (normalize text))"
  define ls where "ls = css_loop ks 0"
  define rs where "rs = map render ls"
  define J where "J = join [CHR 0x0A] rs"
  have clean: "\<forall>k \<in> set ks. strip k = k \<and> k \<noteq> []"
    unfolding ks_def using css_lines_clean by blast
  have out1: "css_out_lines text = ls"
    unfolding css_out_lines_def ls_def ks_def by (rule css_loop_css_lines)
  have fmt: "format_css text = rstrip J @ [CHR 0x0A]"
    by (simp add: format_css_def assemble_def out1 J_def rs_def)
  have kchars: "set k \<subseteq> set (normalize text) \<and> CHR 0x0A \<notin> set k" if "k \<in> set ks" for k
  proof -
    from that obtain p where p: "p \<in> set (split_on (CHR 0x0A) (normalize text))" "set k \<subseteq> set p"
      unfolding ks_def using css_lines_subset by blast
    from split_on_subset [OF p(1)] split_on_no_sep [OF p(1)] p(2) show ?thesis by auto
  qed
  have lines: "\<exists>d k. l = Line d k \<and> k \<in> set ks" if "l \<in> set ls" for l
    using css_loop_clean_lines [OF clean] that unfolding ls_def by blast
  have rprops: "r \<noteq> [] \<and> \<not> isspace (last r) \<and> CHR 0x0A \<notin> set r
      \<and> set r \<subseteq> {CHR '' ''} \<union> set (normalize text)" if "r \<in> set rs" for r
  proof -
    from that obtain l where l: "l \<in> set ls" "r = render l" unfolding rs_def by auto
    from lines [OF l(1)] obtain d k where dk: "l = Line d k" "k \<in> set ks" by blast
    have r: "r = indent_str d @ k" using l dk by simp
    have k: "strip k = k" "k \<noteq> []" using clean dk by auto
    have "\<not> isspace (last k)" using strip_fix_last [OF k] .
    moreover have "set (indent_str d) \<subseteq> {CHR '' ''}" by (rule set_indent_str)
    ultimately show ?thesis using r k kchars [OF dk(2)] by auto
  qed
  show ?thesis
  proof (cases "ks = []")
    case True
    then have lsn: "ls = []" by (simp add: ls_def)
    then have "format_css text = [CHR 0x0A]" by (simp add: fmt J_def rs_def rstrip_def)
    moreover have "css_out_lines [CHR 0x0A] = []" by code_simp
    ultimately show ?thesis using out1 lsn by simp
  next
    case False
    have again: "css_lines rs = ks"
      unfolding rs_def ls_def by (rule css_lines_render_loop [OF clean])
    then have rs_ne: "rs \<noteq> []" using False by (auto simp: css_lines_def)
    then have lastrs: "last rs \<in> set rs" by simp
    from rprops [OF lastrs] have "last rs \<noteq> []" "\<not> isspace (last (last rs))" by simp_all
    with join_last [OF rs_ne, of "[CHR 0x0A]"] have "J \<noteq> []" "\<not> isspace (last J)"
      by (simp_all add: J_def)
    then have "rstrip J = J" by (rule rstrip_fix)
    then have fmt2: "format_css text = J @ [CHR 0x0A]" by (simp add: fmt)
    have Jset: "set J \<subseteq> {CHR 0x0A, CHR '' ''} \<union> set (normalize text)"
      using set_join [of "[CHR 0x0A]" rs] rprops unfolding J_def by auto
    have "CHR 0x0D \<notin> set (J @ [CHR 0x0A])" "CHR 0x09 \<notin> set (J @ [CHR 0x0A])"
      using Jset normalize_no_cr_tab [of "text"] by auto
    then have norm: "normalize (J @ [CHR 0x0A]) = J @ [CHR 0x0A]" by (rule normalize_id)
    have "split_on (CHR 0x0A) J = rs"
      unfolding J_def using rs_ne rprops by (intro split_on_join) auto
    then have "split_on (CHR 0x0A) (J @ [CHR 0x0A]) = rs @ [[]]" by (simp add: split_on_snoc)
    then have "css_lines (split_on (CHR 0x0A) (normalize (format_css text))) = ks"
      using again by (simp add: fmt2 norm css_lines_def strip_def lstrip_def rstrip_def)
    then have "css_out_lines (format_css text) = css_loop ks 0"
      unfolding css_out_lines_def using css_loop_css_lines by metis
    then show ?thesis using out1 by (simp add: ls_def)
  qed
qed

lemma format_css_idem: "format_css (format_css text) = format_css text"
  using css_out_lines_again [of "text"] by (simp add: format_css_def)

subsection \<open>The lines of a text node, read again from the output\<close>

lemma split_on_append_sep:
  "split_on sep (a @ sep # b) = split_on sep a @ split_on sep b"
proof (induction a)
  case Nil
  then show ?case by simp
next
  case (Cons c cs)
  obtain q qs where q: "split_on sep cs = q # qs" by (cases "split_on sep cs") simp_all
  then show ?case using Cons by simp
qed

lemma text_lines_css_lines: "text_lines d tok = map (Line d) (css_lines (split_on (CHR 0x0A) tok))"
  by (simp add: text_lines_def css_lines_def filter_map o_def)

lemma text_lines_Nil [simp]: "text_lines d [] = []"
  by (simp add: text_lines_def strip_def lstrip_def rstrip_def)

lemma text_lines_append_lf:
  "text_lines d (a @ CHR 0x0A # b) = text_lines d a @ text_lines d b"
  by (simp add: text_lines_def split_on_append_sep)

lemma text_lines_append:
  assumes "w = [] \<or> last w = CHR 0x0A"
  shows "text_lines d (w @ x) = text_lines d w @ text_lines d x"
proof (cases "w = []")
  case True
  then show ?thesis by simp
next
  case False
  with assms obtain v where v: "w = v @ [CHR 0x0A]" by (metis append_butlast_last_id)
  have "text_lines d (w @ x) = text_lines d v @ text_lines d x"
    using text_lines_append_lf [of d v x] by (simp add: v)
  moreover have "text_lines d w = text_lines d v"
    using text_lines_append_lf [of d v "[]"] by (simp add: v)
  ultimately show ?thesis by simp
qed

lemma text_lines_blank: "\<forall>c \<in> set x. isspace c \<Longrightarrow> text_lines d x = []"
proof -
  assume a: "\<forall>c \<in> set x. isspace c"
  have "strip p = []" if "p \<in> set (split_on (CHR 0x0A) x)" for p
    using split_on_subset [OF that] a by (auto simp: strip_eq_Nil_iff)
  then show ?thesis by (simp add: text_lines_def filter_empty_conv)
qed

lemma text_lines_strip_Nil: "strip x = [] \<Longrightarrow> text_lines d x = []"
  by (simp add: text_lines_blank strip_eq_Nil_iff)

lemma clean_line_single:
  assumes "strip s = s" "s \<noteq> []" "CHR 0x0A \<notin> set s"
  shows "text_lines d (indent_str d' @ s) = [Line d s]"
proof -
  have "CHR 0x0A \<notin> set (indent_str d' @ s)" using assms(3) set_indent_str [of d'] by auto
  then have "split_on (CHR 0x0A) (indent_str d' @ s) = [indent_str d' @ s]"
    by (rule split_on_single)
  moreover have "strip (indent_str d' @ s) = s"
    using strip_render [of d' s] assms(1) by simp
  ultimately show ?thesis using assms(2) by (simp add: text_lines_def)
qed

lemma rendered_Nil [simp]: "rendered [] = []"
  by (simp add: rendered_def)

lemma rendered_Cons [simp]: "rendered (l # ls) = render l @ CHR 0x0A # rendered ls"
  by (simp add: rendered_def)

lemma rendered_append [simp]: "rendered (xs @ ys) = rendered xs @ rendered ys"
  by (simp add: rendered_def)

lemma rendered_last: "rendered ls = [] \<or> last (rendered ls) = CHR 0x0A"
  by (induction ls) auto

lemma text_lines_rendered:
  assumes "\<forall>s \<in> set ss. strip s = s \<and> s \<noteq> [] \<and> CHR 0x0A \<notin> set s"
  shows "text_lines d (rendered (map (Line d) ss)) = map (Line d) ss"
  using assms
proof (induction ss)
  case Nil
  then show ?case by simp
next
  case (Cons s ss)
  have "text_lines d (rendered (map (Line d) (s # ss)))
      = text_lines d ((indent_str d @ s) @ CHR 0x0A # rendered (map (Line d) ss))" by simp
  also have "\<dots> = text_lines d (indent_str d @ s) @ text_lines d (rendered (map (Line d) ss))"
    by (rule text_lines_append_lf)
  also have "\<dots> = Line d s # map (Line d) ss"
    using Cons clean_line_single [of s d d] by simp
  finally show ?case by simp
qed

lemma text_lines_rendered_again:
  "text_lines d (rendered (text_lines d tok)) = text_lines d tok"
proof -
  have "\<forall>s \<in> set (css_lines (split_on (CHR 0x0A) tok)). strip s = s \<and> s \<noteq> [] \<and> CHR 0x0A \<notin> set s"
  proof
    fix s assume s: "s \<in> set (css_lines (split_on (CHR 0x0A) tok))"
    from css_lines_subset [OF s] obtain p where "p \<in> set (split_on (CHR 0x0A) tok)" "set s \<subseteq> set p"
      by blast
    then have "CHR 0x0A \<notin> set s" using split_on_no_sep by blast
    then show "strip s = s \<and> s \<noteq> [] \<and> CHR 0x0A \<notin> set s" using css_lines_clean [OF s] by simp
  qed
  from text_lines_rendered [OF this, of d] show ?thesis
    by (simp only: text_lines_css_lines [of d tok])
qed

lemma sublist_trans: "sublist a b \<Longrightarrow> sublist b c \<Longrightarrow> sublist a c"
  by (rule sublist_order.order.trans)

lemma sublist_rstrip: "sublist (rstrip s) s"
  unfolding rstrip_def by (simp add: sublist_rev_left)

lemma sublist_strip: "sublist (strip s) s"
  unfolding strip_def lstrip_def
  by (rule sublist_trans [OF sublist_rstrip]) simp

lemma sublist_split_on: "p \<in> set (split_on sep s) \<Longrightarrow> sublist p s"
proof (induction s arbitrary: p)
  case Nil
  then show ?case by simp
next
  case (Cons c cs)
  obtain q qs where q: "split_on sep cs = q # qs" by (cases "split_on sep cs") simp_all
  have tl: "sublist x cs \<Longrightarrow> sublist x (c # cs)" for x
    by (simp add: sublist_Cons_right)
  show ?case
  proof (cases "c = sep")
    case True
    with Cons.prems have "p = [] \<or> p \<in> set (split_on sep cs)" by simp
    then show ?thesis using Cons.IH tl by auto
  next
    case False
    with Cons.prems q have "p = c # q \<or> p \<in> set qs" by simp
    then show ?thesis
    proof
      assume p: "p = c # q"
      have "prefix q cs" using q
      proof (induction cs arbitrary: q qs)
        case Nil
        then show ?case by simp
      next
        case (Cons e es)
        obtain r rs where r: "split_on sep es = r # rs" by (cases "split_on sep es") simp_all
        show ?case using Cons.prems Cons.IH [OF r] r by (auto split: if_splits)
      qed
      then have "prefix p (c # cs)" by (simp add: p)
      then show ?thesis by (rule prefix_imp_sublist)
    next
      assume "p \<in> set qs"
      then have "p \<in> set (split_on sep cs)" by (simp add: q)
      then show ?thesis using Cons.IH tl by blast
    qed
  qed
qed

lemma set_text_lines:
  assumes "l \<in> set (text_lines d tok)"
  shows "\<exists>s. l = Line d s \<and> strip s = s \<and> s \<noteq> [] \<and> sublist s tok"
proof -
  from assms obtain p where p: "p \<in> set (split_on (CHR 0x0A) tok)" "strip p \<noteq> []"
    "l = Line d (strip p)" by (auto simp: text_lines_def)
  have "sublist (strip p) tok"
    by (rule sublist_trans [OF sublist_strip sublist_split_on [OF p(1)]])
  then show ?thesis using p by simp
qed

subsection \<open>Tokens read again in another context\<close>

lemma startswith_take: "startswith s p \<longleftrightarrow> take (length p) s = p"
  by (induction s p rule: startswith.induct) auto

lemma startswith_append_same:
  "length p \<le> length a \<Longrightarrow> startswith (a @ y) p = startswith a p"
  by (simp add: startswith_take)

lemma ci_startswith_append_same:
  "length p \<le> length a \<Longrightarrow> ci_startswith (a @ y) p = ci_startswith a p"
  by (simp add: ci_startswith_def)

lemma ci_startswith_lt: "ci_startswith s (CHR ''<'' # p) \<Longrightarrow> \<exists>cs. s = CHR ''<'' # cs"
  by (cases s) (auto simp: ci_startswith_def dest: lower_char_eq_lt)

text \<open>A text token: a run without \<^verbatim>\<open><\<close> before a \<^verbatim>\<open><\<close> or before the end.\<close>

lemma match_at_text:
  assumes "x \<noteq> []" "CHR ''<'' \<notin> set x" "y = [] \<or> hd y = CHR ''<''"
  shows "match_at (x @ y) = Some (length x)"
proof -
  obtain c cs where x: "x = c # cs" using assms(1) by (cases x) auto
  have c: "c \<noteq> CHR ''<''" using assms(2) x by auto
  have m1: "match_comment (x @ y) = None" using c by (simp add: match_comment_def x)
  have m2: "match_doctype (x @ y) = None"
    using c ci_startswith_lt [of "x @ y" "''!doctype''"] by (auto simp: match_doctype_def x)
  have m3: "match_tag (x @ y) = None" using c by (simp add: match_tag_def x)
  have "takeWhile (\<lambda>c. c \<noteq> CHR ''<'') y = []" using assms(3) by (cases y) auto
  then have "takeWhile (\<lambda>c. c \<noteq> CHR ''<'') (x @ y) = x"
    using assms(2) by (simp add: takeWhile_append)
  then have m4: "match_text (x @ y) = Some (length x)"
    by (simp add: match_text_def x)
  show ?thesis by (simp add: match_at_def m1 m2 m3 m4)
qed

lemma tokenize_Nil [simp]: "tokenize [] = []"
  by (subst tokenize.simps) simp

lemma tokenize_Some:
  "s \<noteq> [] \<Longrightarrow> match_at s = Some n \<Longrightarrow> tokenize s = take n s # tokenize (drop n s)"
  by (subst tokenize.simps) simp

lemma tokenize_None:
  "s \<noteq> [] \<Longrightarrow> match_at s = None \<Longrightarrow> tokenize s = tokenize (tl s)"
  by (subst tokenize.simps) simp

lemma tokenize_text:
  assumes "x \<noteq> []" "CHR ''<'' \<notin> set x" "y = [] \<or> hd y = CHR ''<''"
  shows "tokenize (x @ y) = x # tokenize y"
  using tokenize_Some [OF _ match_at_text [OF assms]] assms(1) by simp

lemma startswith_prefix: "startswith s p \<longleftrightarrow> prefix p s"
  by (induction s p rule: startswith.induct) auto

lemma until_sub_sublist: "(until_sub pat u \<noteq> None) = sublist pat u"
proof (induction u)
  case Nil
  then show ?case by simp
next
  case (Cons c cs)
  then show ?case by (auto simp: sublist_Cons_right startswith_prefix)
qed

lemma until_sub_None_iff: "until_sub pat u = None \<longleftrightarrow> \<not> sublist pat u"
  using until_sub_sublist [of pat u] by blast

lemma until_sub_bounds: "until_sub pat u = Some k \<Longrightarrow> length pat \<le> k \<and> k \<le> length u"
proof (induction u arbitrary: k)
  case Nil
  then show ?case by (simp split: if_splits)
next
  case (Cons c cs)
  show ?case
  proof (cases "startswith (c # cs) pat")
    case True
    then have "take (length pat) (c # cs) = pat" by (simp only: startswith_take)
    then have "length (take (length pat) (c # cs)) = length pat" by simp
    then have "length pat \<le> length (c # cs)" by (simp add: min_def split: if_splits)
    with True Cons.prems show ?thesis by simp
  next
    case False
    with Cons.prems obtain k' where k': "until_sub pat cs = Some k'" "k = Suc k'" by auto
    from Cons.IH [OF k'(1)] k'(2) show ?thesis by simp
  qed
qed

lemma until_sub_take: "until_sub pat u = Some k \<Longrightarrow> until_sub pat (take k u @ y) = Some k"
proof (induction u arbitrary: k)
  case Nil
  then show ?case by (cases y) (simp_all split: if_splits)
next
  case (Cons c cs)
  show ?case
  proof (cases "startswith (c # cs) pat")
    case True
    then have k: "k = length pat" using Cons.prems by simp
    have t: "take (length pat) (c # cs) = pat" using True by (simp only: startswith_take)
    show ?thesis
    proof (cases pat)
      case Nil
      then show ?thesis using k by (cases y) simp_all
    next
      case (Cons p ps)
      have "startswith (pat @ y) pat" by (simp add: startswith_prefix)
      then show ?thesis using t k Cons by simp
    qed
  next
    case False
    with Cons.prems obtain k' where k': "until_sub pat cs = Some k'" "k = Suc k'" by auto
    from until_sub_bounds [OF k'(1)] have b: "length pat \<le> k'" "k' \<le> length cs" by simp_all
    have "take (length pat) (c # take k' cs @ y) = take (length pat) (c # cs)"
      using b by (cases "length pat") (simp_all add: min_def)
    then have "\<not> startswith (c # take k' cs @ y) pat"
      using False by (simp add: startswith_take)
    then show ?thesis using Cons.IH [OF k'(1)] k'(2) by simp
  qed
qed

lemma startswith_take_ctx:
  assumes "startswith s p" "length p \<le> n" "n \<le> length s"
  shows "startswith (take n s @ y) p"
proof -
  have "take (length p) (take n s @ y) = take (length p) s"
    using assms(2,3) by (simp add: min_def)
  then show ?thesis using assms(1) by (simp only: startswith_take)
qed

lemma ci_startswith_take_ctx:
  assumes "ci_startswith s p" "length p \<le> n" "n \<le> length s"
  shows "ci_startswith (take n s @ y) p"
proof -
  have "take (length p) (take n s @ y) = take (length p) s"
    using assms(2,3) by (simp add: min_def)
  then show ?thesis using assms(1) by (simp only: ci_startswith_def)
qed

lemma match_comment_ctx:
  assumes "match_comment s = Some n"
  shows "match_comment (take n s @ y) = Some n"
proof -
  from assms obtain k where k: "startswith s ''<!--''" "until_sub ''-->'' (drop 4 s) = Some k"
    "n = 4 + k" by (auto simp: match_comment_def split: if_splits)
  from until_sub_bounds [OF k(2)] have b: "n \<le> length s" "4 \<le> n" using k(3) by auto
  have s: "startswith (take n s @ y) ''<!--''"
    using k(1) b by (intro startswith_take_ctx) simp_all
  have "drop 4 (take n s @ y) = take k (drop 4 s) @ y"
    using b k(3) by (simp add: drop_take)
  then show ?thesis using until_sub_take [OF k(2), of y] s k(3) by (simp add: match_comment_def)
qed

lemma match_doctype_ctx:
  assumes "match_doctype s = Some n"
  shows "match_doctype (take n s @ y) = Some n"
proof -
  from assms obtain k where k: "ci_startswith s ''<!doctype''" "until_sub ''>'' (drop 9 s) = Some k"
    "n = 9 + k" by (auto simp: match_doctype_def split: if_splits)
  from until_sub_bounds [OF k(2)] have b: "n \<le> length s" "9 \<le> n" using k(3) by auto
  have s: "ci_startswith (take n s @ y) ''<!doctype''"
    using k(1) b by (intro ci_startswith_take_ctx) simp_all
  have "drop 9 (take n s @ y) = take k (drop 9 s) @ y"
    using b k(3) by (simp add: drop_take)
  then show ?thesis using until_sub_take [OF k(2), of y] s k(3) by (simp add: match_doctype_def)
qed

lemma until_sub_suffix: "until_sub pat u = Some k \<Longrightarrow> \<exists>a. take k u = a @ pat"
proof (induction u arbitrary: k)
  case Nil
  then show ?case by (simp split: if_splits)
next
  case (Cons c cs)
  show ?case
  proof (cases "startswith (c # cs) pat")
    case True
    then have "take (length pat) (c # cs) = pat" by (simp only: startswith_take)
    with True Cons.prems show ?thesis by auto
  next
    case False
    with Cons.prems obtain k' where k': "until_sub pat cs = Some k'" "k = Suc k'" by auto
    from Cons.IH [OF k'(1)] obtain a where "take k' cs = a @ pat" by blast
    then have "take k (c # cs) = (c # a) @ pat" using k'(2) by simp
    then show ?thesis by blast
  qed
qed

lemma until_sub_single_None: "until_sub [c] u = None \<longleftrightarrow> c \<notin> set u"
  by (induction u) auto

lemma match_tag_shape:
  assumes "match_tag s = Some n"
  obtains body r where "s = CHR ''<'' # body @ CHR ''>'' # r" "body \<noteq> []"
    "CHR ''>'' \<notin> set body" "n = length body + 2"
proof -
  from assms obtain cs where s: "s = CHR ''<'' # cs" "cs \<noteq> []" "hd cs \<noteq> CHR ''>''"
    "CHR ''>'' \<in> set cs" "n = length (takeWhile (\<lambda>x. x \<noteq> CHR ''>'') cs) + 2"
    by (auto simp: match_tag_def split: list.splits if_splits)
  let ?P = "\<lambda>x. x \<noteq> CHR ''>''"
  have d: "dropWhile ?P cs \<noteq> []" using s(4) by simp
  then obtain g r where gr: "dropWhile ?P cs = g # r" by (cases "dropWhile ?P cs") auto
  have "\<not> ?P (hd (dropWhile ?P cs))" using d by (rule hd_dropWhile)
  then have g: "g = CHR ''>''" using gr by simp
  have cs: "cs = takeWhile ?P cs @ CHR ''>'' # r"
    using takeWhile_dropWhile_id [of ?P cs] gr g by simp
  have b: "takeWhile ?P cs \<noteq> []" using s(2,3) by (cases cs) auto
  have n: "CHR ''>'' \<notin> set (takeWhile ?P cs)" by (auto dest: set_takeWhileD)
  show ?thesis
    by (rule that [of "takeWhile ?P cs" r]) (use s cs b n in auto)
qed

lemma match_tag_ctx:
  assumes "body \<noteq> []" "CHR ''>'' \<notin> set body"
  shows "match_tag (CHR ''<'' # body @ CHR ''>'' # y) = Some (length body + 2)"
proof -
  have "takeWhile (\<lambda>x. x \<noteq> CHR ''>'') (body @ CHR ''>'' # y) = body"
    using assms(2) by (simp add: takeWhile_append)
  moreover have "hd (body @ CHR ''>'' # y) \<noteq> CHR ''>''"
    using assms by (cases body) auto
  ultimately show ?thesis by (simp add: match_tag_def)
qed

lemma lower_char_gt [simp]: "lower_char CHR ''>'' = CHR ''>''" "lower_char CHR ''-'' = CHR ''-''"
  by (simp_all add: lower_char_def)

lemma doctype_not_comment: "ci_startswith u ''<!doctype'' \<Longrightarrow> \<not> startswith u ''<!--''"
proof
  assume a: "ci_startswith u ''<!doctype''" and b: "startswith u ''<!--''"
  from b obtain r where "u = CHR ''<'' # CHR ''!'' # CHR ''-'' # r"
    by (auto simp: startswith_Cons_iff)
  with a show False by (simp add: ci_startswith_def)
qed

lemma ci_startswith_set:
  assumes "ci_startswith (t @ v) p" "length t \<le> length p"
  shows "lower_char ` set t \<subseteq> set p"
proof -
  have "map lower_char (take (length p) (t @ v)) = p"
    using assms(1) by (simp only: ci_startswith_def)
  moreover have "take (length p) (t @ v) = t @ take (length p - length t) v"
    using assms(2) by simp
  ultimately have "map lower_char t @ map lower_char (take (length p - length t) v) = p"
    by simp
  then have "set p = set (map lower_char t @ map lower_char (take (length p - length t) v))"
    by simp
  then show ?thesis by auto
qed

lemma tag_not_doctype_ctx:
  assumes "body \<noteq> []" "CHR ''>'' \<notin> set body"
    and "match_doctype (CHR ''<'' # body @ CHR ''>'' # r) = None"
  shows "match_doctype (CHR ''<'' # body @ CHR ''>'' # y) = None"
proof (rule ccontr)
  assume "match_doctype (CHR ''<'' # body @ CHR ''>'' # y) \<noteq> None"
  then have c: "ci_startswith (CHR ''<'' # body @ CHR ''>'' # y) ''<!doctype''"
    by (auto simp: match_doctype_def split: if_splits)
  show False
  proof (cases "8 \<le> length body")
    case True
    then have l: "length ''<!doctype'' \<le> length (CHR ''<'' # body)" by simp
    have "ci_startswith ((CHR ''<'' # body) @ CHR ''>'' # y) ''<!doctype''" using c by simp
    then have "ci_startswith (CHR ''<'' # body) ''<!doctype''"
      by (simp only: ci_startswith_append_same [OF l])
    then have "ci_startswith ((CHR ''<'' # body) @ CHR ''>'' # r) ''<!doctype''"
      by (simp only: ci_startswith_append_same [OF l])
    then have "until_sub ''>'' (drop 9 (CHR ''<'' # body @ CHR ''>'' # r)) = None"
      using assms(3) by (simp add: match_doctype_def)
    then have "CHR ''>'' \<notin> set (drop 9 (CHR ''<'' # body @ CHR ''>'' # r))"
      by (simp add: until_sub_single_None)
    moreover have "drop 9 ((CHR ''<'' # body) @ CHR ''>'' # r) = drop 9 (CHR ''<'' # body) @ CHR ''>'' # r"
      using True by (simp only: drop_append) simp
    ultimately show False by simp
  next
    case False
    then have l: "length (CHR ''<'' # body @ [CHR ''>'']) \<le> length ''<!doctype''" by simp
    have "ci_startswith ((CHR ''<'' # body @ [CHR ''>'']) @ y) ''<!doctype''" using c by simp
    from ci_startswith_set [OF this l]
    have "lower_char CHR ''>'' \<in> set ''<!doctype''" by auto
    then show False by simp
  qed
qed

lemma dashes_straddle:
  assumes "\<not> sublist ''-->'' (a @ [CHR ''>''])" "\<not> sublist ''-->'' y"
  shows "\<not> sublist ''-->'' (a @ CHR ''>'' # y)"
proof
  assume "sublist ''-->'' (a @ CHR ''>'' # y)"
  then have "sublist ''-->'' ((a @ [CHR ''>'']) @ y)" by simp
  then have "sublist ''-->'' (a @ [CHR ''>'']) \<or> sublist ''-->'' y
      \<or> (\<exists>xs1 xs2. ''-->'' = xs1 @ xs2 \<and> Sublist.suffix xs1 (a @ [CHR ''>'']) \<and> prefix xs2 y)"
    by (simp only: sublist_append)
  then obtain xs1 xs2 where x: "''-->'' = xs1 @ xs2" "Sublist.suffix xs1 (a @ [CHR ''>''])"
    "prefix xs2 y"
    using assms by blast
  show False
  proof (cases "xs1 = []")
    case True
    then have "prefix ''-->'' y" using x by simp
    then show False using assms(2) by auto
  next
    case False
    obtain zs where zs: "a @ [CHR ''>''] = zs @ xs1" using x(2) by (auto simp: Sublist.suffix_def)
    then have "last xs1 = CHR ''>''" using False by (metis last_appendR last_snoc)
    then have "xs1 = ''-->''" using x(1) False
      by (auto simp: Cons_eq_append_conv)
    then show False using x(2) assms(1) by auto
  qed
qed

lemma tag_not_comment_ctx:
  assumes "body \<noteq> []" "CHR ''>'' \<notin> set body"
    and "match_comment (CHR ''<'' # body @ CHR ''>'' # r) = None"
    and "until_sub ''-->'' r = None \<longrightarrow> until_sub ''-->'' y = None"
  shows "match_comment (CHR ''<'' # body @ CHR ''>'' # y) = None"
proof (cases "startswith (CHR ''<'' # body @ CHR ''>'' # y) ''<!--''")
  case False
  then show ?thesis by (simp add: match_comment_def)
next
  case True
  then obtain b3 where b: "body @ CHR ''>'' # y = CHR ''!'' # CHR ''-'' # CHR ''-'' # b3"
    by (auto simp: startswith_Cons_iff)
  then obtain a where a: "body = CHR ''!'' # CHR ''-'' # CHR ''-'' # a"
    using assms(1,2) by (auto simp: append_eq_Cons_conv)
  have "until_sub ''-->'' (a @ CHR ''>'' # r) = None"
    using assms(3) by (simp add: match_comment_def a)
  then have n: "\<not> sublist ''-->'' ((a @ [CHR ''>'']) @ r)" by (simp add: until_sub_None_iff)
  have n1: "\<not> sublist ''-->'' (a @ [CHR ''>''])" and r: "\<not> sublist ''-->'' r"
    using n unfolding sublist_append by blast+
  have n2: "\<not> sublist ''-->'' y" using assms(4) r by (simp add: until_sub_None_iff)
  have "\<not> sublist ''-->'' (a @ CHR ''>'' # y)" using n1 n2 by (rule dashes_straddle)
  then have "until_sub ''-->'' (a @ CHR ''>'' # y) = None" by (simp add: until_sub_None_iff)
  then show ?thesis by (simp add: match_comment_def a)
qed

lemma until_sub_drop_None:
  "until_sub pat u = None \<Longrightarrow> until_sub pat (drop k u) = None"
proof -
  assume "until_sub pat u = None"
  then have "\<not> sublist pat u" by (simp add: until_sub_None_iff)
  moreover have "sublist (drop k u) u" by simp
  ultimately have "\<not> sublist pat (drop k u)" using sublist_trans by blast
  then show ?thesis by (simp add: until_sub_None_iff)
qed

text \<open>
  A token that starts with \<^verbatim>\<open><\<close> is found again when the text after it is replaced by a
  text \<open>y\<close>, provided \<open>y\<close> has no \<^verbatim>\<open>-->\<close> unless the replaced text had one. The token
  ends with \<^verbatim>\<open>>\<close>.
\<close>

lemma match_at_tag_ctx:
  assumes m: "match_at (CHR ''<'' # cs) = Some n"
    and y: "until_sub ''-->'' (drop n (CHR ''<'' # cs)) = None \<longrightarrow> until_sub ''-->'' y = None"
  shows "match_at (take n (CHR ''<'' # cs) @ y) = Some n \<and> n \<le> length (CHR ''<'' # cs)
         \<and> 2 \<le> n \<and> last (take n (CHR ''<'' # cs)) = CHR ''>''"
proof -
  let ?s = "CHR ''<'' # cs"
  consider (k_comment) "match_comment ?s = Some n"
    | (k_doctype) "match_comment ?s = None" "match_doctype ?s = Some n"
    | (k_tag) "match_comment ?s = None" "match_doctype ?s = None" "match_tag ?s = Some n"
    using m by (auto simp: match_at_def match_text_def split: option.splits)
  then show ?thesis
  proof cases
    case k_comment
    then obtain k where k: "until_sub ''-->'' (drop 4 ?s) = Some k" "n = 4 + k"
      by (auto simp: match_comment_def split: if_splits)
    from until_sub_bounds [OF k(1)] have b: "n \<le> length ?s" "4 \<le> n" using k(2) by auto
    from until_sub_suffix [OF k(1)] obtain a where a: "take k (drop 4 ?s) = a @ ''-->''" by blast
    have "take n ?s = take 4 ?s @ take k (drop 4 ?s)" unfolding k(2) by (rule take_add)
    then have "take n ?s = (take 4 ?s @ a) @ ''-->''" by (simp only: a append_assoc)
    then have "last (take n ?s) = last ''-->''" by (simp only: last_appendR list.distinct not_False_eq_True)
    then have "last (take n ?s) = CHR ''>''" by simp
    moreover have "match_at (take n ?s @ y) = Some n"
      using match_comment_ctx [OF k_comment, of y] by (simp add: match_at_def)
    ultimately show ?thesis using b by simp
  next
    case k_doctype
    then obtain k where k: "until_sub ''>'' (drop 9 ?s) = Some k" "n = 9 + k"
      by (auto simp: match_doctype_def split: if_splits)
    from until_sub_bounds [OF k(1)] have b: "n \<le> length ?s" "9 \<le> n" using k(2) by auto
    from until_sub_suffix [OF k(1)] obtain a where a: "take k (drop 9 ?s) = a @ ''>''" by blast
    have "take n ?s = take 9 ?s @ take k (drop 9 ?s)" unfolding k(2) by (rule take_add)
    then have "take n ?s = (take 9 ?s @ a) @ ''>''" by (simp only: a append_assoc)
    then have "last (take n ?s) = last ''>''" by (simp only: last_appendR list.distinct not_False_eq_True)
    then have l: "last (take n ?s) = CHR ''>''" by simp
    have d: "match_doctype (take n ?s @ y) = Some n" by (rule match_doctype_ctx [OF k_doctype(2)])
    then have "ci_startswith (take n ?s @ y) ''<!doctype''"
      by (auto simp: match_doctype_def split: if_splits)
    then have "\<not> startswith (take n ?s @ y) ''<!--''" by (rule doctype_not_comment)
    then have "match_comment (take n ?s @ y) = None" by (simp add: match_comment_def)
    then have "match_at (take n ?s @ y) = Some n" using d by (simp add: match_at_def)
    then show ?thesis using b l by simp
  next
    case k_tag
    from match_tag_shape [OF k_tag(3)] obtain body r where
      s: "?s = CHR ''<'' # body @ CHR ''>'' # r" and body: "body \<noteq> []" "CHR ''>'' \<notin> set body"
      and n: "n = length body + 2" by blast
    have t: "take n ?s = CHR ''<'' # body @ [CHR ''>'']" and d: "drop n ?s = r"
      unfolding s n by simp_all
    have y': "until_sub ''-->'' r = None \<longrightarrow> until_sub ''-->'' y = None"
      using y by (simp only: d)
    have kc: "match_comment (CHR ''<'' # body @ CHR ''>'' # r) = None"
      using k_tag(1) by (simp only: s)
    have kd: "match_doctype (CHR ''<'' # body @ CHR ''>'' # r) = None"
      using k_tag(2) by (simp only: s)
    have c: "match_comment (CHR ''<'' # body @ CHR ''>'' # y) = None"
      by (rule tag_not_comment_ctx [OF body kc y'])
    have dt: "match_doctype (CHR ''<'' # body @ CHR ''>'' # y) = None"
      by (rule tag_not_doctype_ctx [OF body kd])
    have "match_at (CHR ''<'' # body @ CHR ''>'' # y) = Some n"
      using c dt match_tag_ctx [OF body, of y] n by (simp add: match_at_def)
    then have "match_at (take n ?s @ y) = Some n" by (simp add: t)
    moreover have "n \<le> length ?s" unfolding s n by simp
    ultimately show ?thesis using t n by simp
  qed
qed

subsection \<open>Where the emitted lines come from\<close>

lemma sublist_tokenize: "t \<in> set (tokenize s) \<Longrightarrow> sublist t s"
proof (induction s arbitrary: t rule: tokenize.induct)
  case (1 s)
  show ?case
  proof (cases "s = []")
    case True
    with "1.prems" show ?thesis by simp
  next
    case False
    show ?thesis
    proof (cases "match_at s")
      case None
      then have "t \<in> set (tokenize (tl s))" using "1.prems" False by (simp add: tokenize_None)
      from "1.IH"(1) [OF False None this] have "sublist t (tl s)" .
      then show ?thesis by (rule sublist_trans) simp
    next
      case (Some n)
      then have "t = take n s \<or> t \<in> set (tokenize (drop n s))"
        using "1.prems" False by (simp add: tokenize_Some)
      then show ?thesis
      proof
        assume "t = take n s"
        then show ?thesis by simp
      next
        assume "t \<in> set (tokenize (drop n s))"
        from "1.IH"(2) [OF False Some this] have "sublist t (drop n s)" .
        then show ?thesis by (rule sublist_trans) simp
      qed
    qed
  qed
qed

lemma sublist_skip_char:
  assumes "c \<notin> set p" "p \<noteq> []" "sublist p (c # b)"
  shows "sublist p b"
proof -
  from assms(3) have "prefix p (c # b) \<or> sublist p b" by (simp only: sublist_Cons_right)
  moreover have "\<not> prefix p (c # b)"
    using assms(1,2) by (cases p) auto
  ultimately show ?thesis by blast
qed

lemma sublist_split_char:
  assumes "c \<notin> set p" "p \<noteq> []" "sublist p (a @ c # b)"
  shows "sublist p a \<or> sublist p b"
proof -
  from assms(3) have "sublist p a \<or> sublist p (c # b)
      \<or> (\<exists>xs1 xs2. p = xs1 @ xs2 \<and> Sublist.suffix xs1 a \<and> prefix xs2 (c # b))"
    by (simp only: sublist_append)
  then consider "sublist p a" | "sublist p (c # b)"
    | xs1 xs2 where "p = xs1 @ xs2" "Sublist.suffix xs1 a" "prefix xs2 (c # b)"
    by blast
  then show ?thesis
  proof cases
    case 1
    then show ?thesis by simp
  next
    case 2
    then show ?thesis using sublist_skip_char [OF assms(1,2)] by simp
  next
    case 3
    show ?thesis
    proof (cases xs2)
      case Nil
      then show ?thesis using 3 by auto
    next
      case (Cons x xs)
      then have "x = c" using 3(3) by simp
      then have "c \<in> set p" using 3(1) Cons by simp
      then show ?thesis using assms(1) by simp
    qed
  qed
qed

lemma sublist_skip_chars:
  "\<forall>c \<in> set ws. c \<notin> set p \<Longrightarrow> p \<noteq> [] \<Longrightarrow> sublist p (ws @ s) \<Longrightarrow> sublist p s"
proof (induction ws)
  case Nil
  then show ?case by simp
next
  case (Cons w ws)
  from Cons.prems have "sublist p (ws @ s)"
    using sublist_skip_char [of w p "ws @ s"] by simp
  then show ?case using Cons by simp
qed

lemma sublist_rendered:
  assumes "CHR 0x0A \<notin> set p" "CHR '' '' \<notin> set p" "p \<noteq> []"
  shows "sublist p (rendered ls) \<Longrightarrow> \<exists>l \<in> set ls. sublist p (line_text l)"
proof (induction ls)
  case Nil
  then show ?case using assms(3) by simp
next
  case (Cons l ls)
  then have "sublist p (render l @ CHR 0x0A # rendered ls)" by simp
  from sublist_split_char [OF assms(1,3) this]
  show ?case
  proof
    assume r: "sublist p (render l)"
    have "sublist p (line_text l)"
    proof (cases l)
      case (Line d s)
      have "\<forall>c \<in> set (indent_str d). c \<notin> set p" using set_indent_str [of d] assms(2) by auto
      from sublist_skip_chars [OF this assms(3)] r Line show ?thesis by simp
    next
      case Blank
      then show ?thesis using r by simp
    qed
    then show ?thesis by auto
  next
    assume "sublist p (rendered ls)"
    then show ?thesis using Cons.IH by auto
  qed
qed

subsection \<open>One step of the depth machine outside script and style blocks\<close>

lemma emit_Nil [simp]: "emit [] r = r"
  by (cases r) (simp_all add: emit_def)

lemma html_loop_no_lt:
  assumes "CHR ''<'' \<notin> set x"
  shows "html_loop (x # rest) indent = emit (text_lines indent x) (html_loop rest indent)"
proof (cases "strip x = []")
  case True
  then show ?thesis using html_loop_blank [OF True] by (simp add: text_lines_strip_Nil)
next
  case False
  have "CHR ''<'' \<notin> set (strip x)" using assms set_strip [of x] by auto
  then have "\<not> startswith (strip x) ''<''" by (cases "strip x") auto
  then show ?thesis using False by (rule html_loop_text [rotated])
qed

lemma tag_token_step:
  assumes "startswith (strip tok) ''<''" "\<not> opaque_open tok"
  shows "(\<exists>e. \<forall>rest. html_loop (tok # rest) indent = Inl e)
       \<or> (\<exists>d' indent'. \<forall>rest. html_loop (tok # rest) indent
              = emit [Line d' (strip tok)] (html_loop rest indent'))"
proof -
  have ne: "strip tok \<noteq> []" using assms(1) by (cases "strip tok") auto
  consider (k_special) "startswith (strip tok) ''<!--'' \<or> ci_startswith (strip tok) ''<!doctype''"
    | (k_closing) "startswith (strip tok) ''</''"
    | (k_open) "opening_tag (strip tok)"
    using assms(1) unfolding opening_tag_def by auto
  then show ?thesis
  proof cases
    case k_special
    have "\<forall>rest. html_loop (tok # rest) indent
        = emit [Line indent (strip tok)] (html_loop rest indent)"
      using html_loop_comment [OF ne k_special] by simp
    then show ?thesis by blast
  next
    case k_closing
    have "\<forall>rest. html_loop (tok # rest) indent
        = emit [Line (max (indent - 1) 0) (strip tok)] (html_loop rest (max (indent - 1) 0))"
      using html_loop_closing [OF k_closing] by simp
    then show ?thesis by blast
  next
    case k_open
    have n: "tag_name_of (strip tok) \<notin> {''script'', ''style''}"
      using assms(2) k_open by (simp add: opaque_open_def)
    show ?thesis
    proof (cases "self_closing_or_void (strip tok)")
      case (Inl e)
      then have "\<forall>rest. html_loop (tok # rest) indent = Inl e"
        using html_loop_tag [OF k_open n] by simp
      then show ?thesis by blast
    next
      case (Inr b)
      then have "\<forall>rest. html_loop (tok # rest) indent
          = emit [Line indent (strip tok)] (html_loop rest (if b then indent else indent + 1))"
        using html_loop_tag [OF k_open n] by simp
      then show ?thesis by blast
    qed
  qed
qed

lemma html_loop_plain_step:
  assumes "\<not> opaque_open tok"
  shows "(\<exists>e. html_loop (tok # rest) indent = Inl e)
       \<or> (\<exists>ls0 indent'. html_loop (tok # rest) indent = emit ls0 (html_loop rest indent')
            \<and> (\<forall>l \<in> set ls0. \<exists>d s. l = Line d s \<and> strip s = s \<and> s \<noteq> [] \<and> sublist s tok))"
proof (cases "startswith (strip tok) ''<''")
  case True
  from tag_token_step [OF True assms, of indent]
  show ?thesis
  proof
    assume "\<exists>e. \<forall>rest. html_loop (tok # rest) indent = Inl e"
    then obtain e where "html_loop (tok # rest) indent = Inl e" by blast
    then show ?thesis by (intro disjI1 exI [of _ e])
  next
    assume "\<exists>d' indent'. \<forall>rest. html_loop (tok # rest) indent
              = emit [Line d' (strip tok)] (html_loop rest indent')"
    then obtain d' indent' where
      e: "html_loop (tok # rest) indent = emit [Line d' (strip tok)] (html_loop rest indent')"
      by blast
    have ne: "strip tok \<noteq> []" using True by (cases "strip tok") auto
    have "\<exists>d s. Line d' (strip tok) = Line d s \<and> strip s = s \<and> s \<noteq> [] \<and> sublist s tok"
      using ne sublist_strip [of tok] strip_idem [of tok]
      by (intro exI [of _ d'] exI [of _ "strip tok"]) simp
    then have "\<forall>l \<in> set [Line d' (strip tok)].
        \<exists>d s. l = Line d s \<and> strip s = s \<and> s \<noteq> [] \<and> sublist s tok" by simp
    with e show ?thesis
      by (intro disjI2 exI [of _ "[Line d' (strip tok)]"] exI [of _ indent'] conjI)
  qed
next
  case False
  show ?thesis
  proof (cases "strip tok = []")
    case True
    have "html_loop (tok # rest) indent = emit [] (html_loop rest indent)"
      using html_loop_blank [OF True] by simp
    then show ?thesis
      by (intro disjI2 exI [of _ "[]"] exI [of _ indent] conjI) simp_all
  next
    case ne: False
    have e: "html_loop (tok # rest) indent = emit (text_lines indent tok) (html_loop rest indent)"
      using ne False by (rule html_loop_text)
    have "\<forall>l \<in> set (text_lines indent tok).
        \<exists>d s. l = Line d s \<and> strip s = s \<and> s \<noteq> [] \<and> sublist s tok"
    proof
      fix l assume "l \<in> set (text_lines indent tok)"
      from set_text_lines [OF this] show
        "\<exists>d s. l = Line d s \<and> strip s = s \<and> s \<noteq> [] \<and> sublist s tok" by blast
    qed
    with e show ?thesis
      by (intro disjI2 exI [of _ "text_lines indent tok"] exI [of _ indent] conjI)
  qed
qed

lemma html_loop_plain_lines:
  "\<forall>t \<in> set toks. \<not> opaque_open t \<Longrightarrow> html_loop toks indent = Inr ls \<Longrightarrow> l \<in> set ls
   \<Longrightarrow> \<exists>d s t. l = Line d s \<and> strip s = s \<and> s \<noteq> [] \<and> t \<in> set toks \<and> sublist s t"
proof (induction toks arbitrary: indent ls)
  case Nil
  then show ?case by simp
next
  case (Cons tok rest)
  have o: "\<not> opaque_open tok" using Cons.prems(1) by simp
  have r: "\<forall>t \<in> set rest. \<not> opaque_open t" using Cons.prems(1) by simp
  from html_loop_plain_step [OF o, of rest indent]
  consider e where "html_loop (tok # rest) indent = Inl e"
    | ls0 indent' where "html_loop (tok # rest) indent = emit ls0 (html_loop rest indent')"
        "\<forall>l \<in> set ls0. \<exists>d s. l = Line d s \<and> strip s = s \<and> s \<noteq> [] \<and> sublist s tok"
    by blast
  then show ?case
  proof cases
    case 1
    then show ?thesis using Cons.prems(2) by simp
  next
    case 2
    from 2(1) Cons.prems(2) obtain ls' where ls': "html_loop rest indent' = Inr ls'" "ls = ls0 @ ls'"
      by (auto simp: emit_Inr_iff)
    from Cons.prems(3) ls'(2) have "l \<in> set ls0 \<or> l \<in> set ls'" by simp
    then show ?thesis
    proof
      assume "l \<in> set ls0"
      with 2(2) obtain d s where "l = Line d s \<and> strip s = s \<and> s \<noteq> [] \<and> sublist s tok" by blast
      then show ?thesis by (intro exI [of _ d] exI [of _ s] exI [of _ tok]) simp
    next
      assume "l \<in> set ls'"
      from Cons.IH [OF r ls'(1) this] obtain d s t where
        "l = Line d s \<and> strip s = s \<and> s \<noteq> [] \<and> t \<in> set rest \<and> sublist s t" by blast
      then show ?thesis by (intro exI [of _ d] exI [of _ s] exI [of _ t]) simp
    qed
  qed
qed

subsection \<open>The markup formatter applied to its own output\<close>

lemma strip_fix:
  assumes "t \<noteq> []" "\<not> isspace (hd t)" "\<not> isspace (last t)"
  shows "strip t = t"
proof -
  have "lstrip t = t" using assms(1,2) by (cases t) (simp_all add: lstrip_def)
  then show ?thesis using rstrip_fix [OF assms(1,3)] by (simp add: strip_def)
qed

lemma set_rendered:
  "set (rendered ls) \<subseteq> {CHR 0x0A, CHR '' ''} \<union> \<Union> (set ` line_text ` set ls)"
proof (induction ls)
  case Nil
  then show ?case by simp
next
  case (Cons l ls)
  have "set (render l) \<subseteq> {CHR '' ''} \<union> set (line_text l)"
    using set_indent_str by (cases l) auto
  then show ?case using Cons by auto
qed

lemma rendered_text_lines_no_lt:
  assumes "CHR ''<'' \<notin> set tok"
  shows "CHR ''<'' \<notin> set (rendered (text_lines d tok))"
proof
  assume "CHR ''<'' \<in> set (rendered (text_lines d tok))"
  then have "CHR ''<'' \<in> {CHR 0x0A, CHR '' ''} \<union> \<Union> (set ` line_text ` set (text_lines d tok))"
    using set_rendered [of "text_lines d tok"] by (rule rev_subsetD)
  then have "CHR ''<'' \<in> \<Union> (set ` line_text ` set (text_lines d tok))" by simp
  then obtain l where l: "l \<in> set (text_lines d tok)" "CHR ''<'' \<in> set (line_text l)"
    by blast
  from set_text_lines [OF l(1)] obtain s where s: "l = Line d s" "sublist s tok" by blast
  from s(2) have "set s \<subseteq> set tok" by (rule set_mono_sublist)
  then show False using assms l(2) s(1) by auto
qed

lemma dashes_preserved:
  assumes "\<forall>t \<in> set (tokenize T). \<not> opaque_open t"
    and "html_loop (tokenize T) indent = Inr ls"
    and "until_sub ''-->'' T = None"
  shows "until_sub ''-->'' (CHR 0x0A # rendered ls) = None"
proof (rule ccontr)
  assume "until_sub ''-->'' (CHR 0x0A # rendered ls) \<noteq> None"
  then have a: "sublist ''-->'' (CHR 0x0A # rendered ls)" by (simp only: until_sub_sublist)
  have n1: "CHR 0x0A \<notin> set ''-->''" and n2: "CHR '' '' \<notin> set ''-->''" and n3: "''-->'' \<noteq> []"
    by simp_all
  have "sublist ''-->'' (rendered ls)" by (rule sublist_skip_char [OF n1 n3 a])
  from sublist_rendered [OF n1 n2 n3 this]
  obtain l where l: "l \<in> set ls" "sublist ''-->'' (line_text l)" by blast
  from html_loop_plain_lines [OF assms(1,2) l(1)] obtain d s t where
    s: "l = Line d s" "t \<in> set (tokenize T)" "sublist s t" by blast
  have "sublist s T" using s(3) sublist_tokenize [OF s(2)] by (rule sublist_trans)
  moreover have "sublist ''-->'' s" using l(2) s(1) by simp
  ultimately have "sublist ''-->'' T" by (rule sublist_trans [rotated])
  then show False using assms(3) by (simp add: until_sub_None_iff)
qed

lemma pending_then:
  assumes "CHR ''<'' \<notin> set w" "y = [] \<or> hd y = CHR ''<''"
  shows "html_loop (tokenize (w @ y)) indent
         = emit (text_lines indent w) (html_loop (tokenize y) indent)"
proof (cases "w = []")
  case True
  then show ?thesis by simp
next
  case False
  have "tokenize (w @ y) = w # tokenize y" using False assms by (rule tokenize_text)
  then show ?thesis using html_loop_no_lt [OF assms(1)] by simp
qed

lemma text_token_no_lt:
  assumes "match_at (c # cs) = Some n" "c \<noteq> CHR ''<''"
  shows "CHR ''<'' \<notin> set (take n (c # cs))"
proof -
  have m1: "match_comment (c # cs) = None" using assms(2) by (simp add: match_comment_def)
  have m2: "match_doctype (c # cs) = None"
    using assms(2) ci_startswith_lt [of "c # cs" "''!doctype''"] by (auto simp: match_doctype_def)
  have m3: "match_tag (c # cs) = None" using assms(2) by (simp add: match_tag_def)
  have "match_text (c # cs) = Some n" using assms(1) by (simp add: match_at_def m1 m2 m3)
  then have "n = length (takeWhile (\<lambda>x. x \<noteq> CHR ''<'') (c # cs))"
    by (auto simp: match_text_def split: list.splits)
  then have "take n (c # cs) = takeWhile (\<lambda>x. x \<noteq> CHR ''<'') (c # cs)"
    using takeWhile_eq_take [of "\<lambda>x. x \<noteq> CHR ''<''" "c # cs"] by simp
  then show ?thesis by (auto dest: set_takeWhileD)
qed

lemma join_rendered:
  "ls \<noteq> [] \<Longrightarrow> join [CHR 0x0A] (map render ls) @ [CHR 0x0A] = rendered ls"
proof (induction ls)
  case Nil
  then show ?case by simp
next
  case (Cons l ls)
  then show ?case by (cases ls) simp_all
qed


text \<open>
  The main step: the tokens of a text give lines; the text of these lines, after some text
  \<open>w\<close> that is still to be emitted, gives tokens from which the loop emits the lines of
  \<open>w\<close> and then the same lines again.
\<close>

lemma last_append_both:
  "a = [] \<or> last a = c \<Longrightarrow> b = [] \<or> last b = c \<Longrightarrow> a @ b = [] \<or> last (a @ b) = c"
  by (cases "b = []") simp_all

declare tokenize.simps [simp del]

lemma retokenize:
  "\<forall>t \<in> set (tokenize T). \<not> opaque_open t \<Longrightarrow> html_loop (tokenize T) indent = Inr ls
   \<Longrightarrow> CHR ''<'' \<notin> set w \<Longrightarrow> w = [] \<or> last w = CHR 0x0A
   \<Longrightarrow> html_loop (tokenize (w @ rendered ls)) indent = Inr (text_lines indent w @ ls)"
proof (induction T arbitrary: indent ls w rule: tokenize.induct)
  case (1 s)
  show ?case
  proof (cases "s = []")
    case True
    then have "ls = []" using "1.prems"(2) by simp
    then show ?thesis
      using pending_then [OF "1.prems"(3), of "[]" indent] by (simp add: emit_def)
  next
    case False
    show ?thesis
    proof (cases "match_at s")
      case None
      have t: "tokenize s = tokenize (tl s)" using False None by (rule tokenize_None)
      show ?thesis
        using "1.IH"(1) [OF False None _ _ "1.prems"(3,4), of indent ls] "1.prems"(1,2)
        by (simp only: t)
    next
      case (Some n)
      have t: "tokenize s = take n s # tokenize (drop n s)" using False Some by (rule tokenize_Some)
      have o: "\<not> opaque_open (take n s)" and r: "\<forall>t \<in> set (tokenize (drop n s)). \<not> opaque_open t"
        using "1.prems"(1) by (simp_all add: t)
      obtain c cs where s: "s = c # cs" using False by (cases s) auto
      show ?thesis
      proof (cases "c = CHR ''<''")
        case False
        have nlt: "CHR ''<'' \<notin> set (take n s)"
          using text_token_no_lt [of c cs n] Some False by (simp add: s)
        have "html_loop (tokenize s) indent
            = emit (text_lines indent (take n s)) (html_loop (tokenize (drop n s)) indent)"
          using html_loop_no_lt [OF nlt] by (simp add: t)
        with "1.prems"(2) obtain ls' where
          ls': "html_loop (tokenize (drop n s)) indent = Inr ls'"
          "ls = text_lines indent (take n s) @ ls'"
          by (auto simp: emit_Inr_iff)
        let ?w = "w @ rendered (text_lines indent (take n s))"
        have w1: "CHR ''<'' \<notin> set ?w"
          using "1.prems"(3) rendered_text_lines_no_lt [OF nlt, of indent] by simp
        have w2: "?w = [] \<or> last ?w = CHR 0x0A"
          using "1.prems"(4) rendered_last [of "text_lines indent (take n s)"]
          by (rule last_append_both)
        have "html_loop (tokenize (?w @ rendered ls')) indent = Inr (text_lines indent ?w @ ls')"
          by (rule "1.IH"(2) [OF \<open>s \<noteq> []\<close> Some r ls'(1) w1 w2])
        moreover have "text_lines indent ?w = text_lines indent w @ text_lines indent (take n s)"
          using text_lines_append [OF "1.prems"(4), of indent]
          by (simp add: text_lines_rendered_again)
        ultimately show ?thesis by (simp add: ls'(2))
      next
        case True
        have m: "match_at (CHR ''<'' # cs) = Some n" using Some s True by simp
        have st: "startswith (take n s) ''<''" "take n s \<noteq> []"
          using match_at_tag_ctx [OF m, of "[]"] s True by (cases n; simp)+
        have props: "n \<le> length s" "2 \<le> n" "last (take n s) = CHR ''>''"
          using match_at_tag_ctx [OF m, of "[]"] s True by simp_all
        have hdt: "hd (take n s) = CHR ''<''" using st by (cases "take n s") auto
        have sfix: "strip (take n s) = take n s"
          using st(2) hdt props(3) by (intro strip_fix) simp_all
        from tag_token_step [of "take n s" indent] st(1) o sfix
        consider e where "\<forall>rest. html_loop (take n s # rest) indent = Inl e"
          | d' indent' where "\<forall>rest. html_loop (take n s # rest) indent
              = emit [Line d' (take n s)] (html_loop rest indent')"
          by auto
        then show ?thesis
        proof cases
          case 1
          then show ?thesis using "1.prems"(2) by (simp add: t)
        next
          case 2
          then have "html_loop (tokenize s) indent
              = emit [Line d' (take n s)] (html_loop (tokenize (drop n s)) indent')"
            by (simp add: t)
          with "1.prems"(2) obtain ls' where
            ls': "html_loop (tokenize (drop n s)) indent' = Inr ls'" "ls = Line d' (take n s) # ls'"
            by (auto simp: emit_Inr_iff)
          let ?y = "CHR 0x0A # rendered ls'"
          have y: "until_sub ''-->'' (drop n (CHR ''<'' # cs)) = None \<longrightarrow> until_sub ''-->'' ?y = None"
            using dashes_preserved [OF r ls'(1)] s True by simp
          have ma: "match_at (take n s @ ?y) = Some n"
            using match_at_tag_ctx [OF m y] s True by simp
          have len: "length (take n s) = n" using props(1) by simp
          have tk: "tokenize (take n s @ ?y) = take n s # tokenize ?y"
            using tokenize_Some [OF _ ma] st(2) len by simp
          have again: "html_loop (tokenize ([CHR 0x0A] @ rendered ls')) indent'
              = Inr (text_lines indent' [CHR 0x0A] @ ls')"
            by (rule "1.IH"(2) [OF \<open>s \<noteq> []\<close> Some r ls'(1)]) simp_all
          have blank: "text_lines indent' [CHR 0x0A] = []" by (rule text_lines_blank) simp
          have tail: "html_loop (tokenize (take n s @ ?y)) indent = Inr (Line d' (take n s) # ls')"
            using 2 again blank by (simp add: tk emit_def)
          let ?x = "w @ indent_str d'"
          have x1: "CHR ''<'' \<notin> set ?x" using "1.prems"(3) set_indent_str [of d'] by auto
          have x2: "take n s @ ?y = [] \<or> hd (take n s @ ?y) = CHR ''<''" using st(2) hdt by simp
          have "text_lines indent (indent_str d') = []"
            using set_indent_str [of d'] by (intro text_lines_blank) auto
          then have x3: "text_lines indent ?x = text_lines indent w"
            using text_lines_append [OF "1.prems"(4), of indent "indent_str d'"] by simp
          have "html_loop (tokenize (?x @ take n s @ ?y)) indent
              = emit (text_lines indent w) (Inr (Line d' (take n s) # ls'))"
            using pending_then [OF x1 x2, of indent] by (simp only: x3 tail)
          moreover have "w @ rendered ls = ?x @ take n s @ ?y" by (simp add: ls'(2))
          ultimately show ?thesis by (simp add: emit_def ls'(2))
        qed
      qed
    qed
  qed
qed

subsection \<open>Formatting twice\<close>

lemma format_html_again:
  assumes "\<forall>t \<in> set (tokenize (normalize text)). \<not> opaque_open t"
    and "format_html text = Inr out"
  shows "format_html out = Inr out"
proof -
  let ?T = "normalize text"
  from assms(2) obtain ls where ls: "html_loop (tokenize ?T) 0 = Inr ls" "out = assemble ls"
    by (auto simp: format_html_def html_out_lines_def split: sum.splits)
  show ?thesis
  proof (cases "ls = []")
    case True
    then have "out = [CHR 0x0A]" using ls(2) by (simp add: assemble_def rstrip_def)
    moreover have "format_html [CHR 0x0A] = Inr [CHR 0x0A]" by code_simp
    ultimately show ?thesis by simp
  next
    case False
    have lines: "\<exists>d s. l = Line d s \<and> strip s = s \<and> s \<noteq> [] \<and> set s \<subseteq> set ?T"
      if "l \<in> set ls" for l
    proof -
      from html_loop_plain_lines [OF assms(1) ls(1) that] obtain d s t where
        s: "l = Line d s" "strip s = s" "s \<noteq> []" "t \<in> set (tokenize ?T)" "sublist s t" by blast
      have "sublist s ?T" using s(5) sublist_tokenize [OF s(4)] by (rule sublist_trans)
      then have "set s \<subseteq> set ?T" by (rule set_mono_sublist)
      then show ?thesis using s by blast
    qed
    let ?rs = "map render ls"
    let ?J = "join [CHR 0x0A] ?rs"
    have rs_ne: "?rs \<noteq> []" using False by simp
    have "last ls \<in> set ls" using False by simp
    from lines [OF this] obtain d s where
      s: "last ls = Line d s" "strip s = s" "s \<noteq> []" by blast
    have lr: "last ?rs = indent_str d @ s" using False s(1) by (simp add: last_map)
    have "last ?rs \<noteq> []" "last (last ?rs) = last s" using s(3) by (simp_all add: lr)
    moreover have "\<not> isspace (last s)" using s(2,3) by (rule strip_fix_last)
    ultimately have "?J \<noteq> []" "\<not> isspace (last ?J)"
      using join_last [OF rs_ne, of "[CHR 0x0A]"] by simp_all
    then have "rstrip ?J = ?J" by (rule rstrip_fix)
    then have out: "out = rendered ls"
      using join_rendered [OF False] by (simp add: ls(2) assemble_def)
    have "set (rendered ls) \<subseteq> {CHR 0x0A, CHR '' ''} \<union> set ?T"
    proof
      fix c assume "c \<in> set (rendered ls)"
      then have "c \<in> {CHR 0x0A, CHR '' ''} \<union> \<Union> (set ` line_text ` set ls)"
        using set_rendered [of ls] by (rule rev_subsetD)
      then consider "c \<in> {CHR 0x0A, CHR '' ''}" | l where "l \<in> set ls" "c \<in> set (line_text l)"
        by blast
      then show "c \<in> {CHR 0x0A, CHR '' ''} \<union> set ?T"
      proof cases
        case 1
        then show ?thesis by blast
      next
        case 2
        from lines [OF 2(1)] obtain d' s' where "l = Line d' s'" "set s' \<subseteq> set ?T" by blast
        then show ?thesis using 2(2) by auto
      qed
    qed
    then have "CHR 0x0D \<notin> set (rendered ls)" "CHR 0x09 \<notin> set (rendered ls)"
      using normalize_no_cr_tab [of "text"] by auto
    then have norm: "normalize (rendered ls) = rendered ls" by (rule normalize_id)
    have "html_loop (tokenize ([] @ rendered ls)) 0 = Inr (text_lines 0 [] @ ls)"
      by (rule retokenize [OF assms(1) ls(1)]) simp_all
    then have "html_out_lines out = Inr ls"
      by (simp add: html_out_lines_def out norm)
    then show ?thesis by (simp add: format_html_def ls(2))
  qed
qed


text \<open>
  Claim C1, as the spec states it, fails for \<^verbatim>\<open>format_html\<close>. The lines inside a script
  or style block keep their leading white space and get the indent of the block in front
  of it, and the empty pieces before the first and after the last line break of the block
  are emitted as empty lines. On the input of Scenario C the first call puts two empty
  lines into the block, and the second call moves the line of the block two more spaces to
  the right and adds two more empty lines.
\<close>

theorem format_html_not_idempotent:
  "format_html ''<style>\<newline>.a{color:red}\<newline></style>''
     = Inr ''<style>\<newline>\<newline>  .a{color:red}\<newline>\<newline></style>\<newline>''
   \<and> format_html ''<style>\<newline>\<newline>  .a{color:red}\<newline>\<newline></style>\<newline>''
     = Inr ''<style>\<newline>\<newline>\<newline>    .a{color:red}\<newline>\<newline>\<newline></style>\<newline>''
   \<and> ''<style>\<newline>\<newline>\<newline>    .a{color:red}\<newline>\<newline>\<newline></style>\<newline>''
     \<noteq> ''<style>\<newline>\<newline>  .a{color:red}\<newline>\<newline></style>\<newline>''"
  by code_simp

text \<open>
  Claim C1, amended. \<^verbatim>\<open>format_css\<close> applied to its own output gives that output again,
  for every text. So does \<^verbatim>\<open>format_html\<close>, for every text on which it returns and
  whose tokens, after the normalization of line ends and tabs, have no opening script or
  style tag among them; the output of Scenario A is such a text (Scenario F). For a text
  with a script or style block the second output can differ from the first.
\<close>

theorem formatting_twice:
  "format_css (format_css text) = format_css text
   \<and> ((\<forall>t \<in> set (tokenize (normalize text)). \<not> opaque_open t) \<and> format_html text = Inr out
        \<longrightarrow> format_html out = Inr out)
   \<and> format_html ''<div><p>Hi</p></div>''
       = Inr ''<div>\<newline>  <p>\<newline>    Hi\<newline>  </p>\<newline></div>\<newline>''
   \<and> format_html ''<div>\<newline>  <p>\<newline>    Hi\<newline>  </p>\<newline></div>\<newline>''
       = Inr ''<div>\<newline>  <p>\<newline>    Hi\<newline>  </p>\<newline></div>\<newline>''"
proof (intro conjI impI)
  show "format_css (format_css text) = format_css text" by (rule format_css_idem)
next
  assume "(\<forall>t \<in> set (tokenize (normalize text)). \<not> opaque_open t) \<and> format_html text = Inr out"
  then show "format_html out = Inr out" using format_html_again by blast
next
  show "format_html ''<div><p>Hi</p></div>''
       = Inr ''<div>\<newline>  <p>\<newline>    Hi\<newline>  </p>\<newline></div>\<newline>''" by code_simp
next
  show "format_html ''<div>\<newline>  <p>\<newline>    Hi\<newline>  </p>\<newline></div>\<newline>''
       = Inr ''<div>\<newline>  <p>\<newline>    Hi\<newline>  </p>\<newline></div>\<newline>''" by code_simp
qed

theorem formatting_twice_witness:
  "tokenize (normalize ''<!-- a>b <br/><a/ b>c</a>< d'')
     = [''<!-- a>'', ''b '', ''<br/>'', ''<a/ b>'', ''c'', ''</a>'', '' d'']
   \<and> \<not> opaque_open ''<!-- a>'' \<and> \<not> opaque_open ''b '' \<and> \<not> opaque_open ''<br/>''
   \<and> \<not> opaque_open ''<a/ b>'' \<and> \<not> opaque_open ''c'' \<and> \<not> opaque_open ''</a>''
   \<and> \<not> opaque_open '' d''
   \<and> format_html ''<!-- a>b <br/><a/ b>c</a>< d''
       = Inr ''<!-- a>\<newline>b\<newline><br/>\<newline><a/ b>\<newline>c\<newline></a>\<newline>d\<newline>''
   \<and> format_html ''<!-- a>\<newline>b\<newline><br/>\<newline><a/ b>\<newline>c\<newline></a>\<newline>d\<newline>''
       = Inr ''<!-- a>\<newline>b\<newline><br/>\<newline><a/ b>\<newline>c\<newline></a>\<newline>d\<newline>''"
proof -
  let ?x = "''<!-- a>b <br/><a/ b>c</a>< d''"
  let ?o = "''<!-- a>\<newline>b\<newline><br/>\<newline><a/ b>\<newline>c\<newline></a>\<newline>d\<newline>''"
  have t: "tokenize (normalize ?x) = [''<!-- a>'', ''b '', ''<br/>'', ''<a/ b>'', ''c'', ''</a>'', '' d'']"
    by code_simp
  have o: "\<not> opaque_open ''<!-- a>''" "\<not> opaque_open ''b ''" "\<not> opaque_open ''<br/>''"
    "\<not> opaque_open ''<a/ b>''" "\<not> opaque_open ''c''" "\<not> opaque_open ''</a>''"
    "\<not> opaque_open '' d''"
    by code_simp+
  have h: "\<forall>t \<in> set (tokenize (normalize ?x)). \<not> opaque_open t"
    unfolding t using o by simp
  have f: "format_html ?x = Inr ?o" by code_simp
  have "format_html ?o = Inr ?o"
    using formatting_twice [of ?x ?o] h f by blast
  then show ?thesis using t o f by blast
qed

subsection \<open>The dispatcher\<close>

text \<open>
  Claim C9, as the spec states it, fails on the content of a file that has carriage
  returns, because the text that \<^verbatim>\<open>process_file\<close> formats and compares is the text as
  read, with every line end already a line break. A stylesheet file whose content is
  formatted but for its CR LF line ends is left as it is and reported unchanged, although
  the formatted text differs from the content. A file of another type with CR LF line ends
  and a tab is rewritten with line breaks for its line ends, which is a change other than
  that of the tab.
\<close>

theorem process_file_line_ends_counterexample:
  "process_file \<lparr>name = ''s.css'', suffix = ''.css''\<rparr>
       [''s.css'' \<mapsto> [CHR ''a'', CHR '' '', CHR ''{'', CHR 0x0D, CHR 0x0A, CHR ''}'', CHR 0x0D, CHR 0x0A]]
     = Inr ([''s.css'' \<mapsto> [CHR ''a'', CHR '' '', CHR ''{'', CHR 0x0D, CHR 0x0A, CHR ''}'', CHR 0x0D, CHR 0x0A]],
            Unchanged ''s.css'')
   \<and> format_css [CHR ''a'', CHR '' '', CHR ''{'', CHR 0x0D, CHR 0x0A, CHR ''}'', CHR 0x0D, CHR 0x0A]
       \<noteq> [CHR ''a'', CHR '' '', CHR ''{'', CHR 0x0D, CHR 0x0A, CHR ''}'', CHR 0x0D, CHR 0x0A]
   \<and> process_file \<lparr>name = ''n.txt'', suffix = ''.txt''\<rparr>
       [''n.txt'' \<mapsto> [CHR ''a'', CHR 0x0D, CHR 0x0A, CHR 0x09, CHR ''b'']]
     = Inr ([''n.txt'' \<mapsto> ''a\<newline>  b''], Formatted ''n.txt'')
   \<and> ''a\<newline>  b'' \<noteq> replace_tab [CHR ''a'', CHR 0x0D, CHR 0x0A, CHR 0x09, CHR ''b'']"
proof (intro conjI)
  let ?c = "[CHR ''a'', CHR '' '', CHR ''{'', CHR 0x0D, CHR 0x0A, CHR ''}'', CHR 0x0D, CHR 0x0A]"
  have r: "read_text [''s.css'' \<mapsto> ?c] ''s.css'' = Inr ''a {\<newline>}\<newline>''" by code_simp
  have f: "format_css ''a {\<newline>}\<newline>'' = ''a {\<newline>}\<newline>''" by code_simp
  have l: "lower ''.css'' = ''.css''" by code_simp
  show "process_file \<lparr>name = ''s.css'', suffix = ''.css''\<rparr> [''s.css'' \<mapsto> ?c]
     = Inr ([''s.css'' \<mapsto> ?c], Unchanged ''s.css'')"
    by (simp add: process_file_def r f l)
  show "format_css ?c \<noteq> ?c" by code_simp
next
  let ?t = "[CHR ''a'', CHR 0x0D, CHR 0x0A, CHR 0x09, CHR ''b'']"
  have r: "read_text [''n.txt'' \<mapsto> ?t] ''n.txt'' = Inr [CHR ''a'', CHR 0x0A, CHR 0x09, CHR ''b'']"
    by code_simp
  have f: "replace_tab [CHR ''a'', CHR 0x0A, CHR 0x09, CHR ''b''] = ''a\<newline>  b''" by code_simp
  have l: "lower ''.txt'' = ''.txt''" by code_simp
  show "process_file \<lparr>name = ''n.txt'', suffix = ''.txt''\<rparr> [''n.txt'' \<mapsto> ?t]
     = Inr ([''n.txt'' \<mapsto> ''a\<newline>  b''], Formatted ''n.txt'')"
    by (simp add: process_file_def write_text_def r f l)
  show "''a\<newline>  b'' \<noteq> replace_tab ?t" by code_simp
qed

text \<open>
  Claim C9, amended. The text of a file that can be read is its content with every CR LF
  and every other CR replaced by a line break. \<^verbatim>\<open>process_file\<close> chooses by the suffix of
  the path in lower case: \<^verbatim>\<open>.html\<close> and \<^verbatim>\<open>.htm\<close> give the result of \<^verbatim>\<open>format_html\<close>
  on that text (and its exception, if it raises), \<^verbatim>\<open>.css\<close> gives the result of
  \<^verbatim>\<open>format_css\<close>, and any other suffix gives the text with each tab replaced by two
  spaces and nothing else changed. The file is written, with the new text, exactly when the
  new text differs from the text that was read, and then the report is \<^verbatim>\<open>Formatted\<close>;
  otherwise the file system is as before and the report is \<^verbatim>\<open>Unchanged\<close>. No other file
  changes.
\<close>

theorem process_file_dispatch:
  assumes "read_text fs (name p) = Inr text"
  shows "(lower (suffix p) \<in> {''.html'', ''.htm''} \<longrightarrow>
            process_file p fs =
              (case format_html text of
                 Inl e \<Rightarrow> Inl e
               | Inr new \<Rightarrow> if new \<noteq> text then Inr (fs(name p \<mapsto> new), Formatted (name p))
                            else Inr (fs, Unchanged (name p))))
       \<and> (lower (suffix p) = ''.css'' \<longrightarrow>
            process_file p fs =
              (if format_css text \<noteq> text
               then Inr (fs(name p \<mapsto> format_css text), Formatted (name p))
               else Inr (fs, Unchanged (name p))))
       \<and> (lower (suffix p) \<notin> {''.html'', ''.htm'', ''.css''} \<longrightarrow>
            process_file p fs =
              (if replace_tab text \<noteq> text
               then Inr (fs(name p \<mapsto> replace_tab text), Formatted (name p))
               else Inr (fs, Unchanged (name p))))
       \<and> replace_tab text = concat (map (\<lambda>c. if c = CHR 0x09 then ''  '' else [c]) text)
       \<and> (\<exists>content. fs (name p) = Some content \<and> text = replace_cr (replace_crlf content))
       \<and> (\<forall>fs' r q. process_file p fs = Inr (fs', r) \<longrightarrow> q \<noteq> name p \<longrightarrow> fs' q = fs q)"
proof (intro conjI impI allI)
  assume "lower (suffix p) \<in> {''.html'', ''.htm''}"
  then show "process_file p fs =
              (case format_html text of
                 Inl e \<Rightarrow> Inl e
               | Inr new \<Rightarrow> if new \<noteq> text then Inr (fs(name p \<mapsto> new), Formatted (name p))
                            else Inr (fs, Unchanged (name p)))"
    using assms by (simp add: process_file_def write_text_def split: sum.splits)
next
  assume "lower (suffix p) = ''.css''"
  then show "process_file p fs =
              (if format_css text \<noteq> text
               then Inr (fs(name p \<mapsto> format_css text), Formatted (name p))
               else Inr (fs, Unchanged (name p)))"
    using assms by (simp add: process_file_def write_text_def)
next
  assume "lower (suffix p) \<notin> {''.html'', ''.htm'', ''.css''}"
  then show "process_file p fs =
              (if replace_tab text \<noteq> text
               then Inr (fs(name p \<mapsto> replace_tab text), Formatted (name p))
               else Inr (fs, Unchanged (name p)))"
    using assms by (simp add: process_file_def write_text_def)
next
  show "replace_tab text = concat (map (\<lambda>c. if c = CHR 0x09 then ''  '' else [c]) text)"
    by (simp add: replace_tab_def)
next
  show "\<exists>content. fs (name p) = Some content \<and> text = replace_cr (replace_crlf content)"
    using assms by (auto simp: read_text_def split: option.splits)
next
  fix fs' r q
  assume a: "process_file p fs = Inr (fs', r)" and q: "q \<noteq> name p"
  from a have "fs' = fs \<or> (\<exists>new. fs' = fs(name p \<mapsto> new))"
    using assms by (auto simp: process_file_def write_text_def split: sum.splits if_splits)
  then show "fs' q = fs q" using q by auto
qed


theorem process_file_dispatch_witness:
  "read_text [''a.HTML'' \<mapsto> ''<p>x</p>'' @ [CHR 0x0D, CHR 0x0A]] ''a.HTML'' = Inr ''<p>x</p>\<newline>''
   \<and> process_file \<lparr>name = ''a.HTML'', suffix = ''.HTML''\<rparr>
         [''a.HTML'' \<mapsto> ''<p>x</p>'' @ [CHR 0x0D, CHR 0x0A]]
     = Inr ([''a.HTML'' \<mapsto> ''<p>\<newline>  x\<newline></p>\<newline>''], Formatted ''a.HTML'')
   \<and> process_file \<lparr>name = ''s.Css'', suffix = ''.Css''\<rparr> [''s.Css'' \<mapsto> ''a {\<newline>}\<newline>'']
     = Inr ([''s.Css'' \<mapsto> ''a {\<newline>}\<newline>''], Unchanged ''s.Css'')
   \<and> process_file \<lparr>name = ''n.txt'', suffix = ''.txt''\<rparr> [''n.txt'' \<mapsto> [CHR ''a'', CHR 0x09, CHR ''b'']]
     = Inr ([''n.txt'' \<mapsto> ''a  b''], Formatted ''n.txt'')"
proof (intro conjI)
  let ?p = "\<lparr>name = ''a.HTML'', suffix = ''.HTML''\<rparr>"
  let ?fs = "[''a.HTML'' \<mapsto> ''<p>x</p>'' @ [CHR 0x0D, CHR 0x0A]]"
  show r: "read_text ?fs ''a.HTML'' = Inr ''<p>x</p>\<newline>''" by code_simp
  then have f: "read_text ?fs (name ?p) = Inr ''<p>x</p>\<newline>''" by simp
  have l: "lower (suffix ?p) \<in> {''.html'', ''.htm''}" by code_simp
  have h: "format_html ''<p>x</p>\<newline>'' = Inr ''<p>\<newline>  x\<newline></p>\<newline>''" by code_simp
  from process_file_dispatch [of ?fs ?p "''<p>x</p>\<newline>''", OF f] l
  have "process_file ?p ?fs =
              (case format_html ''<p>x</p>\<newline>'' of
                 Inl e \<Rightarrow> Inl e
               | Inr new \<Rightarrow> if new \<noteq> ''<p>x</p>\<newline>''
                            then Inr (?fs(name ?p \<mapsto> new), Formatted (name ?p))
                            else Inr (?fs, Unchanged (name ?p)))" by blast
  then show "process_file ?p ?fs
     = Inr ([''a.HTML'' \<mapsto> ''<p>\<newline>  x\<newline></p>\<newline>''], Formatted ''a.HTML'')"
    by (simp add: h)
next
  let ?p = "\<lparr>name = ''s.Css'', suffix = ''.Css''\<rparr>"
  let ?fs = "[''s.Css'' \<mapsto> ''a {\<newline>}\<newline>'']"
  have "read_text ?fs ''s.Css'' = Inr ''a {\<newline>}\<newline>''" by code_simp
  then have f: "read_text ?fs (name ?p) = Inr ''a {\<newline>}\<newline>''" by simp
  have l: "lower (suffix ?p) = ''.css''" by code_simp
  have h: "format_css ''a {\<newline>}\<newline>'' = ''a {\<newline>}\<newline>''" by code_simp
  from process_file_dispatch [of ?fs ?p "''a {\<newline>}\<newline>''", OF f] l
  have "process_file ?p ?fs =
              (if format_css ''a {\<newline>}\<newline>'' \<noteq> ''a {\<newline>}\<newline>''
               then Inr (?fs(name ?p \<mapsto> format_css ''a {\<newline>}\<newline>''), Formatted (name ?p))
               else Inr (?fs, Unchanged (name ?p)))" by blast
  then show "process_file ?p ?fs = Inr (?fs, Unchanged ''s.Css'')"
    by (simp add: h)
next
  let ?p = "\<lparr>name = ''n.txt'', suffix = ''.txt''\<rparr>"
  let ?t = "[CHR ''a'', CHR 0x09, CHR ''b'']"
  let ?fs = "[''n.txt'' \<mapsto> ?t]"
  have "read_text ?fs ''n.txt'' = Inr ?t" by code_simp
  then have f: "read_text ?fs (name ?p) = Inr ?t" by simp
  have l: "lower (suffix ?p) \<notin> {''.html'', ''.htm'', ''.css''}" by code_simp
  have h: "replace_tab ?t = ''a  b''" by code_simp
  from process_file_dispatch [of ?fs ?p ?t, OF f] l
  have "process_file ?p ?fs =
              (if replace_tab ?t \<noteq> ?t
               then Inr (?fs(name ?p \<mapsto> replace_tab ?t), Formatted (name ?p))
               else Inr (?fs, Unchanged (name ?p)))" by blast
  then show "process_file ?p ?fs = Inr ([''n.txt'' \<mapsto> ''a  b''], Formatted ''n.txt'')"
    by (simp add: h)
qed

subsection \<open>Self-closing and void tags\<close>

lemma name_char_not_space: "is_name_char c \<Longrightarrow> \<not> isspace c"
  by (auto simp: is_name_char_def isspace_def Let_def)

lemma name_char_not_stripped: "is_name_char c \<Longrightarrow> c \<notin> set ''<>/ ''"
  by (auto simp: is_name_char_def Let_def)

lemma split_ws_name:
  assumes "nm \<noteq> []" "\<forall>c \<in> set nm. \<not> isspace c" "tl' = [] \<or> isspace (hd tl')"
  shows "split_ws (nm @ tl') = nm # split_ws tl'"
  using assms
proof (induction nm)
  case Nil
  then show ?case by simp
next
  case (Cons c cs)
  show ?case
  proof (cases cs)
    case Nil
    then show ?thesis using Cons.prems by (cases tl') auto
  next
    case (Cons d ds)
    then have "split_ws (cs @ tl') = cs # split_ws tl'" using Cons.IH Cons.prems by simp
    then show ?thesis using Cons Cons.prems by simp
  qed
qed

lemma rstrip_chars_keep:
  assumes "nm \<noteq> []" "\<not> P (last nm)"
  shows "rev (dropWhile P (rev (nm @ xs))) = nm @ rev (dropWhile P (rev xs))"
proof -
  have "dropWhile P (rev nm) = rev nm"
    using assms by (cases "rev nm") (auto simp: last_rev [symmetric] simp del: last_rev)
  then show ?thesis by (simp add: dropWhile_append)
qed

lemma rstrip_chars_prefix:
  "rev (dropWhile P (rev xs)) = [] \<or> hd (rev (dropWhile P (rev xs))) = hd xs"
proof -
  have "rev xs = takeWhile P (rev xs) @ dropWhile P (rev xs)" by simp
  then have "xs = rev (dropWhile P (rev xs)) @ rev (takeWhile P (rev xs))"
    by (metis rev_append rev_rev_ident)
  then show ?thesis by (metis hd_append2)
qed


lemma plain_tag_word:
  assumes "plain_tag t" "set chars \<subseteq> set ''<>/ ''" "CHR ''<'' \<in> set chars" "CHR ''>'' \<in> set chars"
  shows "\<exists>nm. nm \<noteq> [] \<and> (\<forall>c \<in> set nm. is_name_char c)
            \<and> first (split_ws (strip_chars chars t)) = Inr nm \<and> tag_name_of t = lower nm"
proof -
  from assms(1) obtain cs where t: "t = CHR ''<'' # cs" and nm: "takeWhile is_name_char cs \<noteq> []"
    and tl: "dropWhile is_name_char cs = ''>'' \<or>
          (dropWhile is_name_char cs \<noteq> [] \<and> isspace (hd (dropWhile is_name_char cs)))"
    by (auto simp: plain_tag_def split: list.splits)
  define nm where "nm = takeWhile is_name_char cs"
  define xs where "xs = dropWhile is_name_char cs"
  define P where "P = (\<lambda>c. c \<in> set chars)"
  have cs: "cs = nm @ xs" by (simp add: nm_def xs_def)
  have ne: "nm \<noteq> []" using nm by (simp add: nm_def)
  have nc: "\<forall>c \<in> set nm. is_name_char c" unfolding nm_def by (auto dest: set_takeWhileD)
  have np: "\<forall>c \<in> set nm. \<not> P c"
    using nc name_char_not_stripped assms(2) unfolding P_def by blast
  have ns: "\<forall>c \<in> set nm. \<not> isspace c" using nc name_char_not_space by blast
  have hdnm: "\<not> P (hd nm)" and lastnm: "\<not> P (last nm)" using ne np by simp_all
  have "dropWhile P t = nm @ xs"
    using hdnm ne assms(3) by (cases nm) (simp_all add: t cs P_def)
  then have sc: "strip_chars chars t = nm @ rev (dropWhile P (rev xs))"
    using rstrip_chars_keep [of nm P xs, OF ne lastnm] by (simp add: strip_chars_def P_def)
  define ys where "ys = rev (dropWhile P (rev xs))"
  have "ys = [] \<or> isspace (hd ys)"
  proof (cases "xs = ''>''")
    case True
    then show ?thesis using assms(4) by (simp add: ys_def P_def)
  next
    case False
    then have "isspace (hd xs)" using tl by (simp add: xs_def)
    then show ?thesis using rstrip_chars_prefix [of P xs] by (auto simp: ys_def)
  qed
  from split_ws_name [OF ne ns this] have "split_ws (nm @ ys) = nm # split_ws ys" .
  then have w: "first (split_ws (strip_chars chars t)) = Inr nm" by (simp add: sc ys_def)
  have "dropWhile isspace cs = cs" using ne ns by (cases nm) (simp_all add: cs)
  moreover have "takeWhile is_name_char cs = nm" by (simp add: nm_def)
  ultimately have "tag_name_of t = lower nm" by (simp add: tag_name_of_def t)
  then show ?thesis using ne nc w by blast
qed

lemma plain_tag_self_closing:
  assumes "plain_tag t"
  shows "self_closing_or_void t = Inr (endswith t ''/>'' \<or> tag_name_of t \<in> VOID_ELEMENTS)"
proof (cases "endswith t ''/>''")
  case True
  then show ?thesis by (simp add: self_closing_or_void_def)
next
  case False
  let ?chars = "if CHR '' '' \<in> set t then ''<>/ '' else ''<>/''"
  have "set ?chars \<subseteq> set ''<>/ ''" "CHR ''<'' \<in> set ?chars" "CHR ''>'' \<in> set ?chars"
    by auto
  from plain_tag_word [OF assms this] obtain nm where nm: "nm \<noteq> []" "\<forall>c \<in> set nm. is_name_char c"
    "first (split_ws (strip_chars ?chars t)) = Inr nm" "tag_name_of t = lower nm" by blast
  have "last nm \<noteq> CHR ''/''" using nm(1,2) name_char_not_stripped [of "last nm"] by auto
  then have "\<not> endswith nm ''/''" using nm(1) by (cases nm rule: rev_cases) (auto simp: endswith_def)
  then show ?thesis using False nm(3,4) by (simp add: self_closing_or_void_eq)
qed


text \<open>
  Claim C6, as the spec states it, fails for script and style tags. The test for a script
  or style tag comes before the test for a self-closing tag, so an opening tag
  \<^verbatim>\<open><style/>\<close> or \<^verbatim>\<open><script src=a/>\<close>, whose text ends with \<^verbatim>\<open>/>\<close>, is not treated as
  self-closing: it starts a block, and what follows it is emitted one level deeper as the
  inside of the block.
\<close>

theorem self_closing_counterexample:
  "html_out_lines ''<style/>x'' = Inr [Line 0 ''<style/>'', Line 1 ''x'']
   \<and> opening_tag ''<style/>'' \<and> endswith ''<style/>'' ''/>''
   \<and> html_out_lines ''<script src=a/><p>t</p>''
       = Inr [Line 0 ''<script src=a/>'', Line 1 ''<p>t</p>'']
   \<and> opening_tag ''<script src=a/>'' \<and> endswith ''<script src=a/>'' ''/>''"
  by code_simp

text \<open>
  Claim C6, amended. Take an opening tag that is not a script or style tag and whose
  trimmed text either ends with \<^verbatim>\<open>/>\<close> or has its element name right after \<^verbatim>\<open><\<close>,
  followed by white space or by the closing \<^verbatim>\<open>>\<close>. It is treated as self-closing exactly
  when its text ends with \<^verbatim>\<open>/>\<close> or its element name in lower case is one of the
  fourteen void elements; the two tests are made in that order and none of them raises.
  The tag is emitted at the current depth; when it is self-closing the depth stays as it
  is for what follows, and otherwise it goes up by one. A script or style tag starts a
  block also when it ends with \<^verbatim>\<open>/>\<close>.
\<close>

theorem self_closing_tags:
  assumes "opening_tag (strip tok)" and "tag_name_of (strip tok) \<notin> {''script'', ''style''}"
    and "plain_tag (strip tok) \<or> endswith (strip tok) ''/>''"
  shows "self_closing_or_void (strip tok)
           = Inr (endswith (strip tok) ''/>'' \<or> tag_name_of (strip tok) \<in> VOID_ELEMENTS)
         \<and> html_loop (tok # rest) indent =
             emit [Line indent (strip tok)]
               (html_loop rest
                  (if endswith (strip tok) ''/>'' \<or> tag_name_of (strip tok) \<in> VOID_ELEMENTS
                   then indent else indent + 1))
         \<and> VOID_ELEMENTS = {''area'', ''base'', ''br'', ''col'', ''embed'', ''hr'', ''img'', ''input'',
              ''link'', ''meta'', ''param'', ''source'', ''track'', ''wbr''}"
proof (intro conjI)
  show v: "self_closing_or_void (strip tok)
           = Inr (endswith (strip tok) ''/>'' \<or> tag_name_of (strip tok) \<in> VOID_ELEMENTS)"
  proof (cases "endswith (strip tok) ''/>''")
    case True
    then show ?thesis by (simp add: self_closing_or_void_def)
  next
    case False
    then have "plain_tag (strip tok)" using assms(3) by simp
    then show ?thesis by (rule plain_tag_self_closing)
  qed
  show "html_loop (tok # rest) indent =
             emit [Line indent (strip tok)]
               (html_loop rest
                  (if endswith (strip tok) ''/>'' \<or> tag_name_of (strip tok) \<in> VOID_ELEMENTS
                   then indent else indent + 1))"
    using html_loop_tag [OF assms(1,2), of rest indent] by (simp add: v)
  show "VOID_ELEMENTS = {''area'', ''base'', ''br'', ''col'', ''embed'', ''hr'', ''img'', ''input'',
              ''link'', ''meta'', ''param'', ''source'', ''track'', ''wbr''}"
    by (simp add: VOID_ELEMENTS_def)
qed

theorem self_closing_tags_witness:
  "opening_tag (strip ''<IMG src=x>'') \<and> tag_name_of (strip ''<IMG src=x>'') \<notin> {''script'', ''style''}
   \<and> plain_tag (strip ''<IMG src=x>'') \<and> tag_name_of (strip ''<IMG src=x>'') \<in> VOID_ELEMENTS
   \<and> html_loop [''<IMG src=x>'', ''t''] 1 = Inr [Line 1 ''<IMG src=x>'', Line 1 ''t'']
   \<and> opening_tag (strip ''<a x/>'') \<and> tag_name_of (strip ''<a x/>'') \<notin> {''script'', ''style''}
   \<and> endswith (strip ''<a x/>'') ''/>''
   \<and> html_loop [''<a x/>'', ''t''] 1 = Inr [Line 1 ''<a x/>'', Line 1 ''t'']
   \<and> plain_tag (strip ''<div>'') \<and> \<not> endswith (strip ''<div>'') ''/>''
   \<and> tag_name_of (strip ''<div>'') \<notin> VOID_ELEMENTS
   \<and> html_loop [''<div>'', ''t''] 1 = Inr [Line 1 ''<div>'', Line 2 ''t'']"
proof -
  have a1: "opening_tag (strip ''<IMG src=x>'')"
    and a2: "tag_name_of (strip ''<IMG src=x>'') \<notin> {''script'', ''style''}"
    and a3: "plain_tag (strip ''<IMG src=x>'')"
    and a4: "tag_name_of (strip ''<IMG src=x>'') \<in> VOID_ELEMENTS"
    and a5: "strip ''<IMG src=x>'' = ''<IMG src=x>''"
    by code_simp+
  have b1: "opening_tag (strip ''<a x/>'')"
    and b2: "tag_name_of (strip ''<a x/>'') \<notin> {''script'', ''style''}"
    and b3: "endswith (strip ''<a x/>'') ''/>''"
    and b5: "strip ''<a x/>'' = ''<a x/>''"
    by code_simp+
  have c1: "opening_tag (strip ''<div>'')"
    and c2: "tag_name_of (strip ''<div>'') \<notin> {''script'', ''style''}"
    and c3: "plain_tag (strip ''<div>'')"
    and c4: "\<not> endswith (strip ''<div>'') ''/>''"
    and c5: "tag_name_of (strip ''<div>'') \<notin> VOID_ELEMENTS"
    and c6: "strip ''<div>'' = ''<div>''"
    by code_simp+
  have t1: "html_loop [''t''] 1 = Inr [Line 1 ''t'']" and t2: "html_loop [''t''] 2 = Inr [Line 2 ''t'']"
    by code_simp+
  have "html_loop [''<IMG src=x>'', ''t''] 1 = Inr [Line 1 ''<IMG src=x>'', Line 1 ''t'']"
    using self_closing_tags [OF a1 a2 disjI1 [OF a3], of "[''t'']" 1] a4 t1
    by (simp add: a5 emit_def del: html_loop.simps)
  moreover have "html_loop [''<a x/>'', ''t''] 1 = Inr [Line 1 ''<a x/>'', Line 1 ''t'']"
    using self_closing_tags [OF b1 b2 disjI2 [OF b3], of "[''t'']" 1] b3 t1
    by (simp add: b5 emit_def del: html_loop.simps)
  moreover have "html_loop [''<div>'', ''t''] 1 = Inr [Line 1 ''<div>'', Line 2 ''t'']"
    using self_closing_tags [OF c1 c2 disjI1 [OF c3], of "[''t'']" 1] c4 c5 t2
    by (simp add: c6 emit_def del: html_loop.simps)
  ultimately show ?thesis using a1 a2 a3 a4 b1 b2 b3 c3 c4 c5 by blast
qed

end
